theory Spec2Isabelle
  imports Main
begin

section \<open>Strings\<close>

text \<open>
  A JavaScript string is modelled as a HOL \<^typ>\<open>string\<close>: one \<^typ>\<open>char\<close> per UTF-16 code
  unit, for code units below 256. The functions below are the String and Array methods
  the engine calls, on that range.
\<close>

definition nl :: char where
  "nl = CHR 0x0A"

text \<open>\<^verbatim>\<open>String.prototype.trim\<close> removes WhiteSpace and LineTerminator code units from both
  ends: TAB, LF, VT, FF, CR, SPACE and NBSP are the ones below 256.\<close>

definition is_space :: "char \<Rightarrow> bool" where
  "is_space c = (c \<in> {CHR 0x09, CHR 0x0A, CHR 0x0B, CHR 0x0C, CHR 0x0D, CHR 0x20, CHR 0xA0})"

definition trim :: "string \<Rightarrow> string" where
  "trim s = rev (dropWhile is_space (rev (dropWhile is_space s)))"

text \<open>\<^verbatim>\<open>s.startsWith(p)\<close>\<close>

definition startsWith :: "string \<Rightarrow> string \<Rightarrow> bool" where
  "startsWith s p = (take (length p) s = p)"

text \<open>\<^verbatim>\<open>s.split('\n')\<close>: never empty, the empty string gives one empty line.\<close>

fun split_nl :: "string \<Rightarrow> string list" where
  "split_nl [] = [[]]"
| "split_nl (c # cs) =
     (if c = nl then [] # split_nl cs
      else (case split_nl cs of [] \<Rightarrow> [[c]] | l # ls \<Rightarrow> (c # l) # ls))"

text \<open>\<^verbatim>\<open>xs.join(sep)\<close>\<close>

fun join_with :: "string \<Rightarrow> string list \<Rightarrow> string" where
  "join_with sep [] = []"
| "join_with sep [x] = x"
| "join_with sep (x # y # ys) = x @ sep @ join_with sep (y # ys)"

text \<open>\<^verbatim>\<open>s.split(/\n\n+/)\<close>: every maximal run of two or more line feeds is one separator.\<close>

function split_blank :: "string \<Rightarrow> string list" where
  "split_blank [] = [[]]"
| "split_blank (c # cs) =
     (if c = nl \<and> cs \<noteq> [] \<and> hd cs = nl
      then [] # split_blank (dropWhile (\<lambda>x. x = nl) cs)
      else (case split_blank cs of [] \<Rightarrow> [[c]] | l # ls \<Rightarrow> (c # l) # ls))"
  by pat_completeness auto
termination
  by (relation "measure length") (auto simp: le_imp_less_Suc length_dropWhile_le)

section \<open>The segmenter (engine/parser.ts)\<close>

datatype paragraph_type = Text | Code | Frontmatter

record ParsedParagraph =
  content :: string
  ptype :: paragraph_type
  hash :: string
  startLine :: int
  endLine :: int

text \<open>The local variables of the loop of \<^verbatim>\<open>splitIntoParagraphsWithHash\<close>.\<close>

record seg_state =
  paragraphs :: "ParsedParagraph list"
  currentParagraph :: "string list"
  startLine_var :: int
  inCodeBlock :: bool
  codeBlockStart :: nat

definition seg_init :: seg_state where
  "seg_init = \<lparr>paragraphs = [], currentParagraph = [], startLine_var = 0,
     inCodeBlock = False, codeBlockStart = 0\<rparr>"

text \<open>
  \<^verbatim>\<open>calculateHash\<close> is the MD5 hex digest of Node's crypto library; it is a parameter
  \<open>calculateHash\<close> of every function that hashes.
\<close>

definition mk_paragraph ::
  "(string \<Rightarrow> string) \<Rightarrow> string list \<Rightarrow> paragraph_type \<Rightarrow> int \<Rightarrow> int \<Rightarrow> ParsedParagraph" where
  "mk_paragraph calculateHash ls ty s e =
     (let c = join_with [nl] ls
      in \<lparr>content = c, ptype = ty, hash = calculateHash c, startLine = s, endLine = e\<rparr>)"

text \<open>The part of the loop body after the fence test: lines inside a code block, blank
  lines, ordinary lines.\<close>

definition seg_rest :: "(string \<Rightarrow> string) \<Rightarrow> string list \<Rightarrow> nat \<Rightarrow> seg_state \<Rightarrow> seg_state" where
  "seg_rest calculateHash lines i st =
     (let line = lines ! i in
      if inCodeBlock st then
        (let cur1 = (if currentParagraph st = [] then [lines ! codeBlockStart st]
                     else currentParagraph st);
             cur2 = (if i \<noteq> codeBlockStart st then cur1 @ [line] else cur1)
         in st\<lparr>currentParagraph := cur2\<rparr>)
      else if trim line = [] then
        (if currentParagraph st \<noteq> [] then
           st\<lparr>paragraphs := paragraphs st @
                 [mk_paragraph calculateHash (currentParagraph st) Text (startLine_var st) (int i - 1)],
              currentParagraph := [], startLine_var := int i + 1\<rparr>
         else st\<lparr>startLine_var := int i + 1\<rparr>)
      else
        (let s = (if currentParagraph st = [] then int i else startLine_var st)
         in st\<lparr>startLine_var := s, currentParagraph := currentParagraph st @ [line]\<rparr>))"

text \<open>One iteration of the loop, at line \<open>i\<close>.\<close>

definition seg_step :: "(string \<Rightarrow> string) \<Rightarrow> string list \<Rightarrow> seg_state \<Rightarrow> nat \<Rightarrow> seg_state" where
  "seg_step calculateHash lines st i =
     (let line = lines ! i in
      if startsWith (trim line) ''```'' then
        (if \<not> inCodeBlock st then
           (let st1 = (if currentParagraph st \<noteq> [] then
                         st\<lparr>paragraphs := paragraphs st @
                               [mk_paragraph calculateHash (currentParagraph st) Text
                                  (startLine_var st) (int i - 1)],
                            currentParagraph := []\<rparr>
                       else st)
            in seg_rest calculateHash lines i (st1\<lparr>inCodeBlock := True, codeBlockStart := i\<rparr>))
         else
           st\<lparr>paragraphs := paragraphs st @
                 [mk_paragraph calculateHash (currentParagraph st @ [line]) Code
                    (int (codeBlockStart st)) (int i)],
              currentParagraph := [], inCodeBlock := False, startLine_var := int i + 1\<rparr>)
      else seg_rest calculateHash lines i st)"

definition seg_loop :: "(string \<Rightarrow> string) \<Rightarrow> string list \<Rightarrow> nat \<Rightarrow> seg_state" where
  "seg_loop calculateHash lines n = foldl (seg_step calculateHash lines) seg_init [0..<n]"

definition seg_finish :: "(string \<Rightarrow> string) \<Rightarrow> string list \<Rightarrow> seg_state \<Rightarrow> ParsedParagraph list" where
  "seg_finish calculateHash lines st =
     (if currentParagraph st \<noteq> [] then
        paragraphs st @
          [mk_paragraph calculateHash (currentParagraph st)
             (if inCodeBlock st then Code else Text) (startLine_var st) (int (length lines) - 1)]
      else paragraphs st)"

definition splitIntoParagraphsWithHash :: "(string \<Rightarrow> string) \<Rightarrow> string \<Rightarrow> ParsedParagraph list" where
  "splitIntoParagraphsWithHash calculateHash doc =
     (let lines = split_nl doc
      in seg_finish calculateHash lines (seg_loop calculateHash lines (length lines)))"

definition joinParagraphs :: "string list \<Rightarrow> string" where
  "joinParagraphs ps = join_with [nl, nl] ps"

definition joinParsedParagraphs :: "ParsedParagraph list \<Rightarrow> string" where
  "joinParsedParagraphs ps = join_with [nl, nl] (map content ps)"

definition splitIntoParagraphs :: "string \<Rightarrow> string list" where
  "splitIntoParagraphs doc = filter (\<lambda>p. length (trim p) > 0) (split_blank doc)"

section \<open>Types (types/index.ts)\<close>

datatype TranslationErrorCode =
  NETWORK_ERROR | RATE_LIMIT | AUTH_ERROR | INVALID_RESPONSE | CANCELLED | FILE_TOO_LARGE | UNKNOWN

text \<open>\<^verbatim>\<open>TranslationError\<close>; the constructor's default for \<open>retryable\<close> is \<open>False\<close>. The
  \<open>cause\<close> field is never read by the engine and is left out.\<close>

record TranslationError =
  message :: string
  code :: TranslationErrorCode
  retryable :: bool

text \<open>The token counts of a provider are natural numbers; \<open>total_tokens\<close> is the field
  \<^verbatim>\<open>total\<close>.\<close>

record TokenUsage =
  prompt :: nat
  completion :: nat
  total_tokens :: nat

record TranslationResult =
  translatedText :: string
  tokenUsage :: "TokenUsage option"

record ParagraphMapping =
  sourceContent :: string
  translatedContent :: string
  sourceHash :: string

record IncrementalTranslationResult =
  inc_translatedText :: string
  inc_paragraphs :: "ParagraphMapping list"
  changedParagraphs :: int
  reusedParagraphs :: int
  inc_tokenUsage :: "TokenUsage option"

record ReverseTranslationResult =
  modifiedIndices :: "nat list"
  translatedParagraphs :: "(nat \<times> string) list"
  newSourceContent :: string
  newParagraphs :: "ParagraphMapping list"

text \<open>
  A value that is thrown: a \<^verbatim>\<open>TranslationError\<close>, or anything else, of which the engine
  only ever reads the message (\<^verbatim>\<open>error.message\<close> of an Error, \<^verbatim>\<open>String(error)\<close>
  otherwise, so \<open>''undefined''\<close> for \<^verbatim>\<open>undefined\<close>).
\<close>

datatype thrown = Thrown_TranslationError TranslationError | Thrown_other string

section \<open>The AI service: classification and retry\<close>

definition DEFAULT_MAX_RETRIES :: nat where
  "DEFAULT_MAX_RETRIES = 3"

definition RETRY_DELAY_MS :: nat where
  "RETRY_DELAY_MS = 1000"

definition RATE_LIMIT_DELAY_MS :: nat where
  "RATE_LIMIT_DELAY_MS = 60000"

text \<open>\<^verbatim>\<open>toLowerCase\<close> on code units below 256: A to Z, and the Latin-1 capitals.\<close>

definition toLowerCase_char :: "char \<Rightarrow> char" where
  "toLowerCase_char c =
     (let n = (of_char c :: nat)
      in if (65 \<le> n \<and> n \<le> 90) \<or> (192 \<le> n \<and> n \<le> 222 \<and> n \<noteq> 215)
         then char_of (n + 32) else c)"

definition toLowerCase :: "string \<Rightarrow> string" where
  "toLowerCase s = map toLowerCase_char s"

text \<open>\<^verbatim>\<open>s.includes(sub)\<close>\<close>

fun str_includes :: "string \<Rightarrow> string \<Rightarrow> bool" where
  "str_includes [] sub = (sub = [])"
| "str_includes (c # cs) sub = (startsWith (c # cs) sub \<or> str_includes cs sub)"

definition classifyError :: "thrown \<Rightarrow> TranslationError" where
  "classifyError error =
     (case error of
        Thrown_TranslationError e \<Rightarrow> e
      | Thrown_other errorMessage \<Rightarrow>
          (let lowerMessage = toLowerCase errorMessage in
           if str_includes lowerMessage ''rate limit'' \<or> str_includes lowerMessage ''429'' then
             \<lparr>message = ''Rate limit exceeded. Please wait before retrying.'',
              code = RATE_LIMIT, retryable = True\<rparr>
           else if str_includes lowerMessage ''unauthorized'' \<or> str_includes lowerMessage ''401'' \<or>
                   str_includes lowerMessage ''invalid api key'' \<or>
                   str_includes lowerMessage ''authentication'' then
             \<lparr>message = ''Authentication failed. Please check your API key.'',
              code = AUTH_ERROR, retryable = False\<rparr>
           else if str_includes lowerMessage ''network'' \<or> str_includes lowerMessage ''econnrefused'' \<or>
                   str_includes lowerMessage ''timeout'' \<or> str_includes lowerMessage ''enotfound'' then
             \<lparr>message = ''Network error. Please check your connection.'',
              code = NETWORK_ERROR, retryable = True\<rparr>
           else if str_includes lowerMessage ''abort'' \<or> str_includes lowerMessage ''cancel'' then
             \<lparr>message = ''Translation was cancelled.'', code = CANCELLED, retryable = False\<rparr>
           else \<lparr>message = errorMessage, code = UNKNOWN, retryable = True\<rparr>))"

text \<open>\<^verbatim>\<open>new TranslationError('Translation was cancelled.', TranslationErrorCode.CANCELLED)\<close>\<close>

definition cancelled_error :: TranslationError where
  "cancelled_error = \<lparr>message = ''Translation was cancelled.'', code = CANCELLED, retryable = False\<rparr>"

text \<open>
  What \<^verbatim>\<open>withRetry\<close> does, in order: \<open>Attempt k\<close> is the call of the operation in
  iteration \<open>k\<close>, \<open>Sleep ms\<close> the call of \<^verbatim>\<open>sleep(ms)\<close>.
\<close>

datatype retry_event = Attempt nat | Sleep nat

text \<open>
  The loop of \<^verbatim>\<open>withRetry\<close> from iteration \<open>attempt\<close> on. \<open>operation k\<close> is the outcome
  of the call in iteration \<open>k\<close> (\<open>Inl\<close> what it throws), \<open>aborted k\<close> the value of
  \<^verbatim>\<open>signal?.aborted\<close> read at the head of iteration \<open>k\<close> (False when there is no signal),
  \<open>lastError\<close> the variable of that name (\<open>None\<close> is \<^verbatim>\<open>undefined\<close>). The result is the
  returned value or the thrown one, with the events in order.
\<close>

function retry_loop ::
  "(nat \<Rightarrow> thrown + 'a) \<Rightarrow> nat \<Rightarrow> (nat \<Rightarrow> bool) \<Rightarrow> nat \<Rightarrow> TranslationError option \<Rightarrow>
   (thrown + 'a) \<times> retry_event list" where
  "retry_loop operation maxRetries aborted attempt lastError =
     (if attempt < maxRetries then
        (if aborted attempt then (Inl (Thrown_TranslationError cancelled_error), [])
         else
           (case operation attempt of
              Inr v \<Rightarrow> (Inr v, [Attempt attempt])
            | Inl error \<Rightarrow>
                (let e = classifyError error in
                 if \<not> retryable e then (Inl (Thrown_TranslationError e), [Attempt attempt])
                 else
                   (let slept =
                          (if attempt < maxRetries - 1 then
                             [Sleep (if code e = RATE_LIMIT then RATE_LIMIT_DELAY_MS
                                     else RETRY_DELAY_MS * 2 ^ attempt)]
                           else []);
                        (r, evs) = retry_loop operation maxRetries aborted (Suc attempt) (Some e)
                    in (r, Attempt attempt # slept @ evs)))))
      else
        (case lastError of
           None \<Rightarrow> (Inl (Thrown_other ''undefined''), [])
         | Some e \<Rightarrow> (Inl (Thrown_TranslationError e), [])))"
  by pat_completeness auto
termination
  by (relation "measure (\<lambda>(operation, maxRetries, aborted, attempt, lastError). maxRetries - attempt)")
    auto

declare retry_loop.simps [simp del]

definition withRetry ::
  "(nat \<Rightarrow> thrown + 'a) \<Rightarrow> nat \<Rightarrow> (nat \<Rightarrow> bool) \<Rightarrow> (thrown + 'a) \<times> retry_event list" where
  "withRetry operation maxRetries aborted = retry_loop operation maxRetries aborted 0 None"

section \<open>The AI service: translate and the dispatcher\<close>

text \<open>
  Everything outside the engine that one call of \<^verbatim>\<open>translateParagraphs\<close> meets:
  \<^item> \<open>generateText k a t\<close>: the outcome of the provider call (\<^verbatim>\<open>generateText\<close> of the AI
    SDK, with \<^verbatim>\<open>convertTokenUsage\<close> applied) for paragraph \<open>k\<close> of the call, in iteration
    \<open>a\<close> of its \<^verbatim>\<open>withRetry\<close>, on the text \<open>t\<close>;
  \<^item> \<open>aborted_at_batch i\<close>: \<^verbatim>\<open>signal?.aborted\<close> as read at the head of the batch loop
    when its counter is \<open>i\<close>;
  \<^item> \<open>aborted_at_attempt k a\<close>: \<^verbatim>\<open>signal?.aborted\<close> as read by \<^verbatim>\<open>withRetry\<close>
    for paragraph \<open>k\<close> at the head of iteration \<open>a\<close>;
  \<^item> \<open>settled_at k\<close>: the time at which the promise of paragraph \<open>k\<close> settles.
  The provider is taken to be one of the supported ones, so \<^verbatim>\<open>getProvider\<close> returns.
\<close>

record world =
  generateText :: "nat \<Rightarrow> nat \<Rightarrow> string \<Rightarrow> thrown + TranslationResult"
  aborted_at_batch :: "nat \<Rightarrow> bool"
  aborted_at_attempt :: "nat \<Rightarrow> nat \<Rightarrow> bool"
  settled_at :: "nat \<Rightarrow> nat"

text \<open>\<^verbatim>\<open>translate(content, {signal, glossary})\<close> for paragraph \<open>k\<close>: no \<^verbatim>\<open>onProgress\<close>, so
  the operation is one \<^verbatim>\<open>generateText\<close> call.\<close>

definition translate :: "world \<Rightarrow> nat \<Rightarrow> string \<Rightarrow> (thrown + TranslationResult) \<times> retry_event list" where
  "translate w k content' =
     withRetry (\<lambda>a. generateText w k a content') DEFAULT_MAX_RETRIES (aborted_at_attempt w k)"

text \<open>The provider calls of a run, as (paragraph index, text sent), one per \<open>Attempt\<close>.\<close>

definition calls_of :: "nat \<Rightarrow> string \<Rightarrow> retry_event list \<Rightarrow> (nat \<times> string) list" where
  "calls_of k t evs = concat (map (\<lambda>ev. case ev of Attempt a \<Rightarrow> [(k, t)] | Sleep ms \<Rightarrow> []) evs)"

text \<open>
  \<^verbatim>\<open>Promise.all\<close> rejects with the reason of the promise that rejects first
  (\<open>first_rejection\<close>: the earliest settling time, the lower index on a tie) and otherwise
  fulfils with the values in the order of the input.
\<close>

fun first_rejection :: "(nat \<Rightarrow> nat) \<Rightarrow> nat \<Rightarrow> (thrown + 'a) list \<Rightarrow> (nat \<times> thrown) option" where
  "first_rejection t k [] = None"
| "first_rejection t k (Inr v # rs) = first_rejection t (Suc k) rs"
| "first_rejection t k (Inl e # rs) =
     (case first_rejection t (Suc k) rs of
        None \<Rightarrow> Some (t k, e)
      | Some (tm, e') \<Rightarrow> if tm < t k then Some (tm, e') else Some (t k, e))"

fun fulfilled :: "(thrown + 'a) list \<Rightarrow> 'a list" where
  "fulfilled [] = []"
| "fulfilled (Inr v # rs) = v # fulfilled rs"
| "fulfilled (Inl e # rs) = fulfilled rs"

definition Promise_all :: "(nat \<Rightarrow> nat) \<Rightarrow> nat \<Rightarrow> (thrown + 'a) list \<Rightarrow> thrown + 'a list" where
  "Promise_all t k outcomes =
     (case first_rejection t k outcomes of
        Some (tm, e) \<Rightarrow> Inl e
      | None \<Rightarrow> Inr (fulfilled outcomes))"

text \<open>One promise of \<^verbatim>\<open>batchPromises\<close>: its outcome \<^verbatim>\<open>{index, result}\<close> and its calls.\<close>

definition batch_promise ::
  "world \<Rightarrow> nat \<Rightarrow> nat \<times> string \<Rightarrow> (thrown + nat \<times> TranslationResult) \<times> (nat \<times> string) list" where
  "batch_promise w i bp =
     (case bp of (batchIndex, paragraph) \<Rightarrow>
        (let globalIndex = i + batchIndex in
         case translate w globalIndex paragraph of
           (Inr result, evs) \<Rightarrow> (Inr (globalIndex, result), calls_of globalIndex paragraph evs)
         | (Inl e, evs) \<Rightarrow> (Inl e, calls_of globalIndex paragraph evs)))"

text \<open>\<^verbatim>\<open>for (const { index, result } of batchResults) results[index] = result\<close>; an
  unset slot of \<^verbatim>\<open>new Array(n)\<close> is \<open>None\<close>.\<close>

definition store_results ::
  "TranslationResult option list \<Rightarrow> (nat \<times> TranslationResult) list \<Rightarrow> TranslationResult option list" where
  "store_results results batchResults =
     foldl (\<lambda>res ir. case ir of (index, result) \<Rightarrow> res[index := Some result]) results batchResults"

text \<open>
  The batch loop of \<^verbatim>\<open>translateParagraphs\<close> with its counter at \<open>i\<close>. The loop does not
  advance when \<open>maxConcurrency\<close> is 0, so the function is partial: \<open>None\<close> is a loop that
  never returns. The calls of a batch are listed paragraph by paragraph; all of them are
  made, also when the batch rejects.
\<close>

partial_function (option) batch_loop ::
  "world \<Rightarrow> string list \<Rightarrow> nat \<Rightarrow> nat \<Rightarrow> TranslationResult option list \<Rightarrow> (nat \<times> string) list \<Rightarrow>
   ((thrown + TranslationResult option list) \<times> (nat \<times> string) list) option" where
  "batch_loop w paragraphs' maxConcurrency i results calls =
     (if i < length paragraphs' then
        (if aborted_at_batch w i then
           Some (Inl (Thrown_TranslationError cancelled_error), calls)
         else
           (case Promise_all (settled_at w) i
                   (map (\<lambda>bp. fst (batch_promise w i bp))
                      (enumerate 0 (take maxConcurrency (drop i paragraphs')))) of
              Inl e \<Rightarrow>
                Some (Inl e, calls @ concat (map (\<lambda>bp. snd (batch_promise w i bp))
                       (enumerate 0 (take maxConcurrency (drop i paragraphs')))))
            | Inr batchResults \<Rightarrow>
                batch_loop w paragraphs' maxConcurrency (i + maxConcurrency)
                  (store_results results batchResults)
                  (calls @ concat (map (\<lambda>bp. snd (batch_promise w i bp))
                       (enumerate 0 (take maxConcurrency (drop i paragraphs')))))))
      else Some (Inr results, calls))"

declare batch_loop.simps [code]

definition translateParagraphs ::
  "world \<Rightarrow> string list \<Rightarrow> nat \<Rightarrow>
   ((thrown + TranslationResult option list) \<times> (nat \<times> string) list) option" where
  "translateParagraphs w paragraphs' maxConcurrency =
     batch_loop w paragraphs' maxConcurrency 0 (replicate (length paragraphs') None) []"

section \<open>The translation engine (engine/translator.ts)\<close>

text \<open>\<^verbatim>\<open>existingHashMap\<close>: a later entry with the same hash replaces an earlier one.\<close>

definition existingHashMap :: "ParagraphMapping list \<Rightarrow> (string \<rightharpoonup> ParagraphMapping)" where
  "existingHashMap existingParagraphs =
     foldl (\<lambda>m p. m(sourceHash p \<mapsto> p)) Map.empty existingParagraphs"

text \<open>One iteration of the planning loop, on \<^verbatim>\<open>(paragraphsToTranslate, resultParagraphs)\<close>.\<close>

definition plan_step ::
  "(string \<rightharpoonup> ParagraphMapping) \<Rightarrow>
   (nat \<times> ParsedParagraph) list \<times> ParagraphMapping list \<Rightarrow> nat \<times> ParsedParagraph \<Rightarrow>
   (nat \<times> ParsedParagraph) list \<times> ParagraphMapping list" where
  "plan_step m acc ip =
     (case acc of (paragraphsToTranslate, resultParagraphs) \<Rightarrow>
      case ip of (i, paragraph) \<Rightarrow>
        if ptype paragraph = Code then
          (paragraphsToTranslate,
           resultParagraphs @
             [\<lparr>sourceContent = content paragraph, translatedContent = content paragraph,
               sourceHash = hash paragraph\<rparr>])
        else
          (case m (hash paragraph) of
             Some existing \<Rightarrow> (paragraphsToTranslate, resultParagraphs @ [existing])
           | None \<Rightarrow>
               (paragraphsToTranslate @ [(i, paragraph)],
                resultParagraphs @
                  [\<lparr>sourceContent = content paragraph, translatedContent = [],
                    sourceHash = hash paragraph\<rparr>])))"

definition plan ::
  "ParagraphMapping list \<Rightarrow> ParsedParagraph list \<Rightarrow>
   (nat \<times> ParsedParagraph) list \<times> ParagraphMapping list" where
  "plan existingParagraphs currentParagraphs =
     foldl (plan_step (existingHashMap existingParagraphs)) ([], []) (enumerate 0 currentParagraphs)"

definition add_usage :: "TokenUsage \<Rightarrow> TokenUsage \<Rightarrow> TokenUsage" where
  "add_usage t u = \<lparr>prompt = prompt t + prompt u, completion = completion t + completion u,
     total_tokens = total_tokens t + total_tokens u\<rparr>"

text \<open>
  The loop that fills in the results, from position \<open>i\<close> of \<^verbatim>\<open>paragraphsToTranslate\<close>
  on. Reading a field of an unset slot of \<^verbatim>\<open>results\<close>, or of a paragraph that is not
  there, is a TypeError.
\<close>

fun fill_results ::
  "(nat \<times> ParsedParagraph) list \<Rightarrow> TranslationResult option list \<Rightarrow> nat \<Rightarrow>
   ParagraphMapping list \<times> TokenUsage \<Rightarrow> thrown + ParagraphMapping list \<times> TokenUsage" where
  "fill_results [] results i acc = Inr acc"
| "fill_results ((index, paragraph) # rest) results i (resultParagraphs, totalTokenUsage) =
     (case (if i < length results then results ! i else None) of
        None \<Rightarrow> Inl (Thrown_other ''TypeError'')
      | Some result \<Rightarrow>
          if index < length resultParagraphs then
            fill_results rest results (Suc i)
              (resultParagraphs[index :=
                 (resultParagraphs ! index)\<lparr>translatedContent := translatedText result\<rparr>],
               (case tokenUsage result of
                  Some u \<Rightarrow> add_usage totalTokenUsage u
                | None \<Rightarrow> totalTokenUsage))
          else Inl (Thrown_other ''TypeError''))"

text \<open>The end of \<^verbatim>\<open>translateIncremental\<close>: the result built from the filled-in
  paragraphs and the accumulated usage (or the TypeError of the filling loop).\<close>

definition finish_incremental ::
  "int \<Rightarrow> int \<Rightarrow> (thrown + ParagraphMapping list \<times> TokenUsage) \<Rightarrow>
   thrown + IncrementalTranslationResult" where
  "finish_incremental totalParagraphs toTranslate filled' =
     (case filled' of
        Inl e \<Rightarrow> Inl e
      | Inr (resultParagraphs, totalTokenUsage) \<Rightarrow>
          Inr \<lparr>inc_translatedText = join_with [nl, nl] (map translatedContent resultParagraphs),
               inc_paragraphs = resultParagraphs,
               changedParagraphs = toTranslate,
               reusedParagraphs = totalParagraphs - toTranslate,
               inc_tokenUsage = (if total_tokens totalTokenUsage > 0
                                 then Some totalTokenUsage else None)\<rparr>)"

text \<open>
  \<^verbatim>\<open>translateIncremental\<close>: the result or the thrown value, with the provider calls made;
  \<open>None\<close> when the dispatcher never returns. \<open>maxConcurrency\<close> is the option of that name
  (\<open>None\<close>: not given, so 3). The progress callbacks are left out.
\<close>

definition translateIncremental ::
  "(string \<Rightarrow> string) \<Rightarrow> world \<Rightarrow> string \<Rightarrow> ParagraphMapping list \<Rightarrow> nat option \<Rightarrow>
   ((thrown + IncrementalTranslationResult) \<times> (nat \<times> string) list) option" where
  "translateIncremental calculateHash w content' existingParagraphs maxConcurrency =
     (let currentParagraphs = splitIntoParagraphsWithHash calculateHash content';
          totalParagraphs = int (length currentParagraphs);
          (paragraphsToTranslate, resultParagraphs) = plan existingParagraphs currentParagraphs
      in if length paragraphsToTranslate > 0 then
           (case translateParagraphs w (map (\<lambda>p. content (snd p)) paragraphsToTranslate)
                   (case maxConcurrency of None \<Rightarrow> 3 | Some c \<Rightarrow> c) of
              None \<Rightarrow> None
            | Some (Inl e, calls) \<Rightarrow> Some (Inl e, calls)
            | Some (Inr results, calls) \<Rightarrow>
                Some (finish_incremental totalParagraphs (int (length paragraphsToTranslate))
                        (fill_results paragraphsToTranslate results 0
                           (resultParagraphs, \<lparr>prompt = 0, completion = 0, total_tokens = 0\<rparr>)),
                      calls))
         else Some (finish_incremental totalParagraphs (int (length paragraphsToTranslate))
                      (Inr (resultParagraphs, \<lparr>prompt = 0, completion = 0, total_tokens = 0\<rparr>)),
                    []))"

text \<open>\<^verbatim>\<open>translateWithExisting\<close> passes the configured \<^verbatim>\<open>maxConcurrency\<close> on.\<close>

definition translateWithExisting ::
  "(string \<Rightarrow> string) \<Rightarrow> world \<Rightarrow> nat option \<Rightarrow> string \<Rightarrow> ParagraphMapping list \<Rightarrow>
   ((thrown + IncrementalTranslationResult) \<times> (nat \<times> string) list) option" where
  "translateWithExisting calculateHash w config_maxConcurrency content' existingParagraphs =
     translateIncremental calculateHash w content' existingParagraphs config_maxConcurrency"

subsection \<open>Reverse translation\<close>

definition find_modified :: "string list \<Rightarrow> ParagraphMapping list \<Rightarrow> nat list" where
  "find_modified currentParagraphs savedParagraphs =
     filter (\<lambda>i. i \<ge> length savedParagraphs \<or>
                 currentParagraphs ! i \<noteq> translatedContent (savedParagraphs ! i))
       [0..<length currentParagraphs]"

text \<open>\<^verbatim>\<open>translatedParagraphs.push({index: modifiedIndices[i], content: results[i].translatedText})\<close>
  from position \<open>i\<close> on.\<close>

fun collect_translated ::
  "nat list \<Rightarrow> TranslationResult option list \<Rightarrow> nat \<Rightarrow> thrown + (nat \<times> string) list" where
  "collect_translated [] results i = Inr []"
| "collect_translated (index # rest) results i =
     (case (if i < length results then results ! i else None) of
        None \<Rightarrow> Inl (Thrown_other ''TypeError'')
      | Some result \<Rightarrow>
          (case collect_translated rest results (Suc i) of
             Inl e \<Rightarrow> Inl e
           | Inr tps \<Rightarrow> Inr ((index, translatedText result) # tps)))"

text \<open>One iteration of the rebuilding loop, on \<^verbatim>\<open>(sourceParagraphContents, newParagraphs)\<close>.\<close>

definition rebuild_step ::
  "(string \<Rightarrow> string) \<Rightarrow> string list \<Rightarrow> string list \<times> ParagraphMapping list \<Rightarrow> nat \<times> string \<Rightarrow>
   string list \<times> ParagraphMapping list" where
  "rebuild_step calculateHash currentParagraphs acc ic =
     (case acc of (sourceParagraphContents, newParagraphs') \<Rightarrow>
      case ic of (index, content') \<Rightarrow>
        ((if index < length sourceParagraphContents
          then sourceParagraphContents[index := content']
          else sourceParagraphContents @ [content']),
         (if index < length newParagraphs'
          then newParagraphs'[index :=
                 \<lparr>sourceContent = content', translatedContent = currentParagraphs ! index,
                  sourceHash = calculateHash content'\<rparr>]
          else newParagraphs' @
                 [\<lparr>sourceContent = content', translatedContent = currentParagraphs ! index,
                   sourceHash = calculateHash content'\<rparr>])))"

text \<open>
  \<^verbatim>\<open>reverseTranslate\<close>. \<open>config_maxConcurrency\<close> is \<^verbatim>\<open>this.config.maxConcurrency\<close>
  (\<open>None\<close>: not set); the \<^verbatim>\<open>sourceLanguage\<close> argument is not used by the function.
\<close>

definition reverseTranslate ::
  "(string \<Rightarrow> string) \<Rightarrow> world \<Rightarrow> nat option \<Rightarrow> string \<Rightarrow> ParagraphMapping list \<Rightarrow>
   ((thrown + ReverseTranslationResult) \<times> (nat \<times> string) list) option" where
  "reverseTranslate calculateHash w config_maxConcurrency currentTranslatedContent savedParagraphs =
     (let currentParagraphs = splitIntoParagraphs currentTranslatedContent;
          modified = find_modified currentParagraphs savedParagraphs
      in if length modified = 0 then
           Some (Inr \<lparr>modifiedIndices = [], translatedParagraphs = [],
                      newSourceContent = joinParagraphs (map sourceContent savedParagraphs),
                      newParagraphs = savedParagraphs\<rparr>, [])
         else
           (case translateParagraphs w (map (\<lambda>i. currentParagraphs ! i) modified)
                   (case config_maxConcurrency of None \<Rightarrow> 3 | Some c \<Rightarrow> if c = 0 then 3 else c) of
              None \<Rightarrow> None
            | Some (Inl e, calls) \<Rightarrow> Some (Inl e, calls)
            | Some (Inr results, calls) \<Rightarrow>
                (case collect_translated modified results 0 of
                   Inl e \<Rightarrow> Some (Inl e, calls)
                 | Inr tps \<Rightarrow>
                     (case foldl (rebuild_step calculateHash currentParagraphs)
                             (map sourceContent savedParagraphs,
                              map (\<lambda>p. p\<lparr>sourceHash :=
                                     (if sourceHash p = [] then calculateHash (sourceContent p)
                                      else sourceHash p)\<rparr>) savedParagraphs) tps of
                        (sourceParagraphContents, newParagraphs') \<Rightarrow>
                          Some (Inr \<lparr>modifiedIndices = modified, translatedParagraphs = tps,
                                     newSourceContent = joinParagraphs sourceParagraphContents,
                                     newParagraphs = newParagraphs'\<rparr>, calls)))))"

section \<open>Vocabulary of the properties\<close>

subsection \<open>Segments and the lines between them\<close>

text \<open>
  The lines of a segment; a blank line is one that \<^verbatim>\<open>trim\<close> empties; \<open>with_gaps gs ss g_end\<close>
  is the list of lines made of the segments \<open>ss\<close> in order, each preceded by its gap of
  \<open>gs\<close>, and \<open>g_end\<close> after the last one; \<open>sep_gaps n\<close> are the gaps that joining \<open>n\<close>
  segments with two line feeds makes: nothing before the first segment, one empty line
  before every other one.
\<close>

definition seg_lines :: "ParsedParagraph \<Rightarrow> string list" where
  "seg_lines p = split_nl (content p)"

definition blank_line :: "string \<Rightarrow> bool" where
  "blank_line l = (trim l = [])"

text \<open>
  The normalisation that the specification names for the round trip, written from its
  words and not from the code: leading and trailing blank lines are dropped and every run
  of blank lines between two other lines is collapsed to one empty line. The flag of
  \<open>collapse_blank_runs\<close> says that a run of blank lines has been read since the last line
  that was kept.
\<close>

fun collapse_blank_runs :: "bool \<Rightarrow> string list \<Rightarrow> string list" where
  "collapse_blank_runs pending [] = []"
| "collapse_blank_runs pending (l # ls) =
     (if blank_line l then collapse_blank_runs True ls
      else (if pending then [[], l] else [l]) @ collapse_blank_runs False ls)"

definition spec_normalize_blank_lines :: "string \<Rightarrow> string" where
  "spec_normalize_blank_lines doc =
     join_with [nl] (collapse_blank_runs False (dropWhile blank_line (split_nl doc)))"

definition with_gaps :: "string list list \<Rightarrow> string list list \<Rightarrow> string list \<Rightarrow> string list" where
  "with_gaps gs ss g_end = concat (map2 (@) gs ss) @ g_end"

definition sep_gaps :: "nat \<Rightarrow> string list list" where
  "sep_gaps n = (case n of 0 \<Rightarrow> [] | Suc m \<Rightarrow> [] # replicate m [[]])"

subsection \<open>The retry policy\<close>

text \<open>
  The events of \<open>k\<close> failed iterations that are retried, \<open>es\<close> the values the operation
  threw in them: iteration \<open>j\<close> is followed by a sleep of 60000 ms when its error is
  classified as a rate limit and of \<open>1000 * 2 ^ j\<close> ms otherwise.
\<close>

definition retry_prefix :: "thrown list \<Rightarrow> retry_event list" where
  "retry_prefix es =
     concat (map (\<lambda>j. [Attempt j,
                        Sleep (if code (classifyError (es ! j)) = RATE_LIMIT then 60000
                               else 1000 * 2 ^ j)]) [0..<length es])"

subsection \<open>The units of a dispatch\<close>

text \<open>
  For the paragraphs \<open>ps\<close> handed to \<^verbatim>\<open>translateParagraphs\<close>: what \<^verbatim>\<open>translate\<close>
  gives for paragraph \<open>k\<close> (after its retries), and the provider calls it makes.
\<close>

definition unit_result :: "world \<Rightarrow> string list \<Rightarrow> nat \<Rightarrow> thrown + TranslationResult" where
  "unit_result w ps k = fst (translate w k (ps ! k))"

definition unit_calls :: "world \<Rightarrow> string list \<Rightarrow> nat \<Rightarrow> (nat \<times> string) list" where
  "unit_calls w ps k = calls_of k (ps ! k) (snd (translate w k (ps ! k)))"

text \<open>The array \<open>results\<close> with the slots from \<open>a\<close> up to \<open>b\<close> set to the results \<open>r\<close>.\<close>

definition filled ::
  "(nat \<Rightarrow> TranslationResult) \<Rightarrow> TranslationResult option list \<Rightarrow> nat \<Rightarrow> nat \<Rightarrow>
   TranslationResult option list" where
  "filled r results a b =
     map (\<lambda>j. if a \<le> j \<and> j < b then Some (r j) else results ! j) [0..<length results]"

subsection \<open>Example data\<close>

text \<open>A provider that answers every call at once, with a usage of 2 + 3 tokens; no
  cancellation; later paragraphs settle earlier. And a stand-in for the digest.\<close>

definition echo_result :: "string \<Rightarrow> TranslationResult" where
  "echo_result t =
     \<lparr>translatedText = ''T:'' @ t,
      tokenUsage = Some \<lparr>prompt = 2, completion = 3, total_tokens = 5\<rparr>\<rparr>"

definition ex_world :: world where
  "ex_world = \<lparr>generateText = (\<lambda>k a t. Inr (echo_result t)),
     aborted_at_batch = (\<lambda>i. False), aborted_at_attempt = (\<lambda>k a. False),
     settled_at = (\<lambda>k. 10 - k)\<rparr>"

definition ex_hash :: "string \<Rightarrow> string" where
  "ex_hash t = ''#'' @ t"

subsection \<open>The plan of a forward translation\<close>

text \<open>A segment needs translation when it is not code and the prior mapping has no entry
  for its hash; \<open>planned_entry\<close> is the mapping entry the planning loop makes for it.\<close>

definition needs_translation :: "(string \<rightharpoonup> ParagraphMapping) \<Rightarrow> ParsedParagraph \<Rightarrow> bool" where
  "needs_translation m p = (ptype p \<noteq> Code \<and> m (hash p) = None)"

definition planned_entry :: "(string \<rightharpoonup> ParagraphMapping) \<Rightarrow> ParsedParagraph \<Rightarrow> ParagraphMapping" where
  "planned_entry m p =
     (if ptype p = Code then
        \<lparr>sourceContent = content p, translatedContent = content p, sourceHash = hash p\<rparr>
      else (case m (hash p) of
              Some existing \<Rightarrow> existing
            | None \<Rightarrow> \<lparr>sourceContent = content p, translatedContent = [], sourceHash = hash p\<rparr>))"

text \<open>The sum of a list of usages, field by field.\<close>

definition sum_usage :: "TokenUsage list \<Rightarrow> TokenUsage" where
  "sum_usage us = \<lparr>prompt = sum_list (map prompt us), completion = sum_list (map completion us),
     total_tokens = sum_list (map total_tokens us)\<rparr>"

subsection \<open>The rebuilt mapping of a reverse translation\<close>

text \<open>The entry written for a modified paragraph, and the entry an untouched paragraph
  starts the rebuilding loop with (an empty hash is replaced by the hash of the source).\<close>

definition rebuilt_entry :: "(string \<Rightarrow> string) \<Rightarrow> string list \<Rightarrow> nat \<Rightarrow> string \<Rightarrow> ParagraphMapping" where
  "rebuilt_entry calculateHash currentParagraphs index content' =
     \<lparr>sourceContent = content', translatedContent = currentParagraphs ! index,
      sourceHash = calculateHash content'\<rparr>"

definition with_hash :: "(string \<Rightarrow> string) \<Rightarrow> ParagraphMapping \<Rightarrow> ParagraphMapping" where
  "with_hash calculateHash p =
     p\<lparr>sourceHash := (if sourceHash p = [] then calculateHash (sourceContent p) else sourceHash p)\<rparr>"

text \<open>The invariant of the segmenter's loop after \<open>i\<close> lines: the lines read so far are
  the segments emitted, with blank lines only between them, and then the lines of the
  paragraph in progress; inside a code block that paragraph is not empty; every segment
  emitted is text or code.\<close>

definition seg_inv :: "string list \<Rightarrow> nat \<Rightarrow> seg_state \<Rightarrow> bool" where
  "seg_inv lines i st =
     ((\<exists>gs g. length gs = length (paragraphs st) \<and> list_all blank_line (concat gs @ g) \<and>
         take i lines = with_gaps gs (map seg_lines (paragraphs st)) g @ currentParagraph st) \<and>
      (inCodeBlock st \<longrightarrow> currentParagraph st \<noteq> [] \<and> codeBlockStart st < i) \<and>
      list_all (\<lambda>p. ptype p = Text \<or> ptype p = Code) (paragraphs st))"

section \<open>The segmenter: properties\<close>

lemma split_nl_not_Nil: "split_nl s \<noteq> []"
  by (induction s) (auto split: list.splits)

lemma join_with_Cons_Cons: "join_with sep ((c # l) # ls) = c # join_with sep (l # ls)"
  by (cases ls) auto

lemma join_split_nl: "join_with [nl] (split_nl s) = s"
proof (induction s)
  case Nil
  show ?case by simp
next
  case (Cons c cs)
  obtain l ls where sp: "split_nl cs = l # ls"
    using split_nl_not_Nil [of cs] by (cases "split_nl cs") auto
  show ?case
  proof (cases "c = nl")
    case True
    with sp Cons show ?thesis by simp
  next
    case False
    with sp Cons show ?thesis by (simp add: join_with_Cons_Cons)
  qed
qed

lemma split_nl_line: "nl \<notin> set x \<Longrightarrow> split_nl x = [x]"
  by (induction x) auto

lemma split_nl_append: "nl \<notin> set x \<Longrightarrow> split_nl (x @ nl # r) = x # split_nl r"
  by (induction x) auto

lemma split_join_nl:
  "ls \<noteq> [] \<Longrightarrow> \<forall>l\<in>set ls. nl \<notin> set l \<Longrightarrow> split_nl (join_with [nl] ls) = ls"
proof (induction "[nl]" ls rule: join_with.induct)
  case 1
  then show ?case by simp
next
  case (2 x)
  then show ?case by (simp add: split_nl_line)
next
  case (3 x y ys)
  then show ?case by (simp add: split_nl_append)
qed

lemma split_nl_no_nl: "l \<in> set (split_nl s) \<Longrightarrow> nl \<notin> set l"
proof (induction s arbitrary: l)
  case Nil
  then show ?case by simp
next
  case (Cons c cs)
  then show ?case
    by (cases "split_nl cs") (auto split: if_splits)
qed

lemma with_gaps_snoc:
  "length gs = length ss \<Longrightarrow> with_gaps (gs @ [g]) (ss @ [s]) e = with_gaps gs ss g @ s @ e"
  by (simp add: with_gaps_def)

lemma with_gaps_end: "with_gaps gs ss g @ [l] = with_gaps gs ss (g @ [l])"
  by (simp add: with_gaps_def)

lemma seg_lines_mk:
  "ls \<noteq> [] \<Longrightarrow> \<forall>l\<in>set ls. nl \<notin> set l \<Longrightarrow> seg_lines (mk_paragraph h ls ty s e) = ls"
  by (simp add: seg_lines_def mk_paragraph_def Let_def split_join_nl)

lemma ptype_mk [simp]: "ptype (mk_paragraph h ls ty s e) = ty"
  by (simp add: mk_paragraph_def Let_def)

lemma content_mk [simp]: "content (mk_paragraph h ls ty s e) = join_with [nl] ls"
  by (simp add: mk_paragraph_def Let_def)

lemma seg_invI:
  "length gs = length (paragraphs st) \<Longrightarrow> list_all blank_line (concat gs @ g) \<Longrightarrow>
   take i lines = with_gaps gs (map seg_lines (paragraphs st)) g @ currentParagraph st \<Longrightarrow>
   (inCodeBlock st \<longrightarrow> currentParagraph st \<noteq> [] \<and> codeBlockStart st < i) \<Longrightarrow>
   list_all (\<lambda>p. ptype p = Text \<or> ptype p = Code) (paragraphs st) \<Longrightarrow>
   seg_inv lines i st"
  unfolding seg_inv_def by blast

lemma seg_inv_init: "seg_inv lines 0 seg_init"
  by (simp add: seg_inv_def seg_init_def with_gaps_def)

lemma cur_no_nl:
  assumes "\<forall>l\<in>set lines. nl \<notin> set l" "take i lines = pre @ cur"
  shows "\<forall>l\<in>set cur. nl \<notin> set l"
proof -
  have "set cur \<subseteq> set (take i lines)" using assms(2) by simp
  also have "\<dots> \<subseteq> set lines" by (rule set_take_subset)
  finally show ?thesis using assms(1) by blast
qed

lemma seg_inv_step:
  assumes inv: "seg_inv lines i st" and i: "i < length lines"
    and nonl: "\<forall>l\<in>set lines. nl \<notin> set l"
  shows "seg_inv lines (Suc i) (seg_step h lines st i)"
proof -
  from inv obtain gs g where
    len: "length gs = length (paragraphs st)" and
    bl: "list_all blank_line (concat gs @ g)" and
    tk: "take i lines = with_gaps gs (map seg_lines (paragraphs st)) g @ currentParagraph st" and
    code: "inCodeBlock st \<longrightarrow> currentParagraph st \<noteq> [] \<and> codeBlockStart st < i" and
    ty: "list_all (\<lambda>p. ptype p = Text \<or> ptype p = Code) (paragraphs st)"
    unfolding seg_inv_def by blast
  have tkS: "take (Suc i) lines = take i lines @ [lines ! i]"
    using i by (simp add: take_Suc_conv_app_nth)
  have cnl: "\<forall>l\<in>set (currentParagraph st). nl \<notin> set l"
    using cur_no_nl [OF nonl tk] .
  have lnl: "nl \<notin> set (lines ! i)" using nonl i by simp
  let ?line = "lines ! i"
  let ?ss = "map seg_lines (paragraphs st)"
  consider
    (openf) "startsWith (trim ?line) ''```''" "\<not> inCodeBlock st" "currentParagraph st \<noteq> []"
  | (opene) "startsWith (trim ?line) ''```''" "\<not> inCodeBlock st" "currentParagraph st = []"
  | (close) "startsWith (trim ?line) ''```''" "inCodeBlock st"
  | (incode) "\<not> startsWith (trim ?line) ''```''" "inCodeBlock st"
  | (blankf) "\<not> startsWith (trim ?line) ''```''" "\<not> inCodeBlock st" "trim ?line = []" "currentParagraph st \<noteq> []"
  | (blanke) "\<not> startsWith (trim ?line) ''```''" "\<not> inCodeBlock st" "trim ?line = []" "currentParagraph st = []"
  | (normal) "\<not> startsWith (trim ?line) ''```''" "\<not> inCodeBlock st" "trim ?line \<noteq> []"
    by blast
  then show ?thesis
  proof cases
    case openf
    let ?p = "mk_paragraph h (currentParagraph st) Text (startLine_var st) (int i - 1)"
    have st': "seg_step h lines st i =
        st\<lparr>paragraphs := paragraphs st @ [?p], currentParagraph := [?line],
           inCodeBlock := True, codeBlockStart := i\<rparr>"
      using openf by (simp add: seg_step_def seg_rest_def Let_def)
    have sl: "seg_lines ?p = currentParagraph st"
      using openf(3) cnl by (simp add: seg_lines_mk)
    have "take (Suc i) lines = with_gaps (gs @ [g]) (?ss @ [seg_lines ?p]) [] @ [?line]"
      using tkS tk len sl by (simp add: with_gaps_snoc)
    moreover have "list_all blank_line (concat (gs @ [g]) @ [])" using bl by simp
    moreover have "length (gs @ [g]) = length (paragraphs st @ [?p])" using len by simp
    ultimately show ?thesis
      unfolding st' using ty
      by (intro seg_invI [of "gs @ [g]" _ "[]"]) simp_all
  next
    case opene
    have st': "seg_step h lines st i =
        st\<lparr>currentParagraph := [?line], inCodeBlock := True, codeBlockStart := i\<rparr>"
      using opene by (simp add: seg_step_def seg_rest_def Let_def)
    show ?thesis
      unfolding st' using ty tkS tk len bl opene
      by (intro seg_invI [of "gs" _ "g"]) simp_all
  next
    case close
    let ?p = "mk_paragraph h (currentParagraph st @ [?line]) Code (int (codeBlockStart st)) (int i)"
    have st': "seg_step h lines st i =
        st\<lparr>paragraphs := paragraphs st @ [?p], currentParagraph := [],
           inCodeBlock := False, startLine_var := int i + 1\<rparr>"
      using close by (simp add: seg_step_def Let_def)
    have sl: "seg_lines ?p = currentParagraph st @ [?line]"
      using cnl lnl by (simp add: seg_lines_mk)
    have "take (Suc i) lines = with_gaps (gs @ [g]) (?ss @ [seg_lines ?p]) [] @ []"
      using tkS tk len sl by (simp add: with_gaps_snoc)
    then show ?thesis
      unfolding st' using ty len bl
      by (intro seg_invI [of "gs @ [g]" _ "[]"]) simp_all
  next
    case incode
    have st': "seg_step h lines st i = st\<lparr>currentParagraph := currentParagraph st @ [?line]\<rparr>"
      using incode code by (simp add: seg_step_def seg_rest_def Let_def)
    show ?thesis
      unfolding st' using ty tkS tk len bl incode code
      by (intro seg_invI [of "gs" _ "g"]) simp_all
  next
    case blankf
    let ?p = "mk_paragraph h (currentParagraph st) Text (startLine_var st) (int i - 1)"
    have st': "seg_step h lines st i =
        st\<lparr>paragraphs := paragraphs st @ [?p], currentParagraph := [],
           startLine_var := int i + 1\<rparr>"
      using blankf by (simp add: seg_step_def seg_rest_def Let_def)
    have sl: "seg_lines ?p = currentParagraph st"
      using blankf(4) cnl by (simp add: seg_lines_mk)
    have "take (Suc i) lines = with_gaps (gs @ [g]) (?ss @ [seg_lines ?p]) [?line] @ []"
      using tkS tk len sl by (simp add: with_gaps_snoc)
    moreover have "list_all blank_line (concat (gs @ [g]) @ [?line])"
      using bl blankf(3) by (simp add: blank_line_def)
    ultimately show ?thesis
      unfolding st' using ty len blankf(2)
      by (intro seg_invI [of "gs @ [g]" _ "[?line]"]) simp_all
  next
    case blanke
    have st': "seg_step h lines st i = st\<lparr>startLine_var := int i + 1\<rparr>"
      using blanke by (simp add: seg_step_def seg_rest_def Let_def)
    have "take (Suc i) lines = with_gaps gs ?ss (g @ [?line]) @ []"
      using tkS tk blanke(4) by (simp add: with_gaps_end)
    moreover have "list_all blank_line (concat gs @ g @ [?line])"
      using bl blanke(3) by (simp add: blank_line_def)
    ultimately show ?thesis
      unfolding st' using ty len blanke
      by (intro seg_invI [of "gs" _ "g @ [?line]"]) simp_all
  next
    case normal
    have st': "seg_step h lines st i =
        st\<lparr>startLine_var := (if currentParagraph st = [] then int i else startLine_var st),
           currentParagraph := currentParagraph st @ [?line]\<rparr>"
      using normal by (simp add: seg_step_def seg_rest_def Let_def)
    show ?thesis
      unfolding st' using ty tkS tk len bl normal
      by (intro seg_invI [of "gs" _ "g"]) simp_all
  qed
qed

lemma seg_loop_Suc: "seg_loop h lines (Suc n) = seg_step h lines (seg_loop h lines n) n"
  by (simp add: seg_loop_def)

lemma seg_inv_loop:
  assumes "\<forall>l\<in>set lines. nl \<notin> set l"
  shows "n \<le> length lines \<Longrightarrow> seg_inv lines n (seg_loop h lines n)"
proof (induction n)
  case 0
  show ?case by (simp add: seg_loop_def seg_inv_init)
next
  case (Suc n)
  then show ?case using assms by (simp add: seg_loop_Suc seg_inv_step)
qed

lemma join_with_append:
  "xs \<noteq> [] \<Longrightarrow> ys \<noteq> [] \<Longrightarrow> join_with sep (xs @ ys) = join_with sep xs @ sep @ join_with sep ys"
proof (induction sep xs rule: join_with.induct)
  case (1 sep)
  then show ?case by simp
next
  case (2 sep x)
  then show ?case by (cases ys) auto
next
  case (3 sep x y zs)
  then show ?case by simp
qed

lemma join_with_concat:
  "join_with sep (c # cs) = c @ concat (map (\<lambda>x. sep @ x) cs)"
  by (induction cs arbitrary: c) auto

lemma join_gap_line: "join_with [nl] ([] # split_nl c) = nl # c"
proof -
  obtain l ls where "split_nl c = l # ls"
    using split_nl_not_Nil [of c] by (cases "split_nl c") auto
  then show ?thesis using join_split_nl [of c] by simp
qed

lemma join_sep_aux:
  "pre \<noteq> [] \<Longrightarrow>
   join_with [nl] (pre @ concat (map2 (@) (replicate (length cs) [[]]) (map split_nl cs))) =
   join_with [nl] pre @ concat (map (\<lambda>x. [nl, nl] @ x) cs)"
proof (induction cs arbitrary: pre)
  case Nil
  then show ?case by simp
next
  case (Cons c cs)
  have "join_with [nl] ((pre @ [] # split_nl c) @
          concat (map2 (@) (replicate (length cs) [[]]) (map split_nl cs))) =
        join_with [nl] (pre @ [] # split_nl c) @ concat (map (\<lambda>x. [nl, nl] @ x) cs)"
    by (rule Cons.IH) simp
  moreover have "join_with [nl] (pre @ [] # split_nl c) = join_with [nl] pre @ [nl] @ nl # c"
    using Cons.prems by (simp add: join_with_append join_gap_line)
  ultimately show ?case by simp
qed

lemma join_sep_gaps:
  "join_with [nl] (with_gaps (sep_gaps (length cs)) (map split_nl cs) []) = join_with [nl, nl] cs"
proof (cases cs)
  case Nil
  then show ?thesis by (simp add: with_gaps_def sep_gaps_def)
next
  case (Cons c cs')
  have "join_with [nl] (split_nl c @ concat (map2 (@) (replicate (length cs') [[]]) (map split_nl cs'))) =
        join_with [nl] (split_nl c) @ concat (map (\<lambda>x. [nl, nl] @ x) cs')"
    by (rule join_sep_aux) (rule split_nl_not_Nil)
  then show ?thesis
    using Cons by (simp add: with_gaps_def sep_gaps_def join_split_nl join_with_concat)
qed

lemma seg_finish_gaps:
  assumes inv: "seg_inv lines (length lines) st" and nonl: "\<forall>l\<in>set lines. nl \<notin> set l"
  shows "\<exists>gs g_end. length gs = length (seg_finish h lines st) \<and>
           list_all blank_line (concat gs @ g_end) \<and>
           lines = with_gaps gs (map seg_lines (seg_finish h lines st)) g_end"
proof -
  from inv obtain gs g where
    len: "length gs = length (paragraphs st)" and
    bl: "list_all blank_line (concat gs @ g)" and
    tk: "take (length lines) lines = with_gaps gs (map seg_lines (paragraphs st)) g @ currentParagraph st"
    unfolding seg_inv_def by blast
  show ?thesis
  proof (cases "currentParagraph st = []")
    case True
    then show ?thesis using len bl tk by (auto simp: seg_finish_def)
  next
    case False
    let ?p = "mk_paragraph h (currentParagraph st) (if inCodeBlock st then Code else Text)
                (startLine_var st) (int (length lines) - 1)"
    have "seg_lines ?p = currentParagraph st"
      using False cur_no_nl [OF nonl tk] by (simp add: seg_lines_mk)
    then have "lines = with_gaps (gs @ [g]) (map seg_lines (paragraphs st @ [?p])) []"
      using tk len by (simp add: with_gaps_snoc)
    moreover have "list_all blank_line (concat (gs @ [g]) @ [])" using bl by simp
    moreover have "length (gs @ [g]) = length (paragraphs st @ [?p])" using len by simp
    moreover have "seg_finish h lines st = paragraphs st @ [?p]"
      using False by (simp add: seg_finish_def)
    ultimately show ?thesis by metis
  qed
qed

text \<open>
  Claim C6, as amended. For every document, joining its segments in order with the
  separator of two line feeds gives the document back up to blank lines at the segment
  boundaries: the lines of the document are the lines of the segments, in order and
  unchanged, with a run of blank lines (possibly none) before each segment and after the
  last one, and the joined text is the same segments with no line before the first,
  exactly one empty line before every other one, and nothing after the last. So a
  boundary that has no blank line in the document, where a fence touches a paragraph or
  another fence, gets one in the joined text, which is more than collapsing runs of blank
  lines.
\<close>

theorem join_segments_reproduces_document:
  "let ps = splitIntoParagraphsWithHash calculateHash doc in
   \<exists>gs g_end. length gs = length ps \<and> list_all blank_line (concat gs @ g_end) \<and>
     doc = join_with [nl] (with_gaps gs (map seg_lines ps) g_end) \<and>
     joinParsedParagraphs ps = join_with [nl] (with_gaps (sep_gaps (length ps)) (map seg_lines ps) [])"
proof -
  let ?lines = "split_nl doc"
  let ?ps = "splitIntoParagraphsWithHash calculateHash doc"
  have nonl: "\<forall>l\<in>set ?lines. nl \<notin> set l" by (simp add: split_nl_no_nl)
  have "seg_inv ?lines (length ?lines) (seg_loop calculateHash ?lines (length ?lines))"
    using nonl by (intro seg_inv_loop) simp_all
  note fin = seg_finish_gaps [OF this nonl, of calculateHash]
  have ps_eq: "?ps = seg_finish calculateHash ?lines (seg_loop calculateHash ?lines (length ?lines))"
    by (simp add: splitIntoParagraphsWithHash_def Let_def)
  obtain gs g_end where
    "length gs = length ?ps" "list_all blank_line (concat gs @ g_end)"
    "?lines = with_gaps gs (map seg_lines ?ps) g_end"
    using fin unfolding ps_eq by blast
  moreover have "doc = join_with [nl] ?lines" by (simp add: join_split_nl)
  moreover have "joinParsedParagraphs ?ps =
      join_with [nl] (with_gaps (sep_gaps (length ?ps)) (map seg_lines ?ps) [])"
  proof -
    have e: "map seg_lines ?ps = map split_nl (map content ?ps)"
      by (simp add: seg_lines_def)
    show ?thesis
      unfolding joinParsedParagraphs_def e
      using join_sep_gaps [of "map content ?ps"] by (simp only: length_map)
  qed
  ultimately show ?thesis unfolding Let_def by metis
qed

text \<open>A fence that follows a paragraph directly is a boundary with no blank line; the
  joined text has one there.\<close>

lemma join_adds_blank_line_before_fence:
  "joinParsedParagraphs (splitIntoParagraphsWithHash calculateHash ''a\<newline>```\<newline>b\<newline>```'') =
   ''a\<newline>\<newline>```\<newline>b\<newline>```''"
  by (simp add: splitIntoParagraphsWithHash_def seg_finish_def seg_loop_def seg_step_def
      seg_rest_def seg_init_def mk_paragraph_def joinParsedParagraphs_def startsWith_def
      trim_def is_space_def nl_def Let_def upt_rec)

text \<open>
  Claim C6 as worded says that the joined text equals the document once runs of blank
  lines are collapsed and leading and trailing blank lines are dropped. The document
  below has a paragraph line directly above a fence and no blank line at all, so the
  normalisation leaves it as it is; the joined text has an empty line between the two, and
  the normalisation keeps it.
\<close>

theorem join_differs_after_collapsing_counterexample:
  "spec_normalize_blank_lines ''a\<newline>```\<newline>b\<newline>```'' = ''a\<newline>```\<newline>b\<newline>```'' \<and>
   spec_normalize_blank_lines
     (joinParsedParagraphs (splitIntoParagraphsWithHash ex_hash ''a\<newline>```\<newline>b\<newline>```'')) =
     ''a\<newline>\<newline>```\<newline>b\<newline>```'' \<and>
   spec_normalize_blank_lines
     (joinParsedParagraphs (splitIntoParagraphsWithHash ex_hash ''a\<newline>```\<newline>b\<newline>```'')) \<noteq>
   spec_normalize_blank_lines ''a\<newline>```\<newline>b\<newline>```''"
proof -
  have d: "spec_normalize_blank_lines ''a\<newline>```\<newline>b\<newline>```'' = ''a\<newline>```\<newline>b\<newline>```''"
    by (simp add: spec_normalize_blank_lines_def blank_line_def trim_def is_space_def nl_def)
  have j: "spec_normalize_blank_lines ''a\<newline>\<newline>```\<newline>b\<newline>```'' = ''a\<newline>\<newline>```\<newline>b\<newline>```''"
    by (simp add: spec_normalize_blank_lines_def blank_line_def trim_def is_space_def nl_def)
  show ?thesis
    unfolding join_adds_blank_line_before_fence [of ex_hash] d j by simp
qed

lemma segments_text_or_code:
  "list_all (\<lambda>p. ptype p = Text \<or> ptype p = Code) (splitIntoParagraphsWithHash calculateHash doc)"
proof -
  let ?lines = "split_nl doc"
  have nonl: "\<forall>l\<in>set ?lines. nl \<notin> set l" by (simp add: split_nl_no_nl)
  have "seg_inv ?lines (length ?lines) (seg_loop calculateHash ?lines (length ?lines))"
    using nonl by (intro seg_inv_loop) simp_all
  then show ?thesis
    by (simp add: splitIntoParagraphsWithHash_def Let_def seg_finish_def seg_inv_def)
qed

lemma frontmatter_example:
  "map (\<lambda>p. (content p, ptype p))
     (splitIntoParagraphsWithHash calculateHash
        ''---\<newline>title: x\<newline>\<newline>tags: y\<newline>---\<newline>\<newline>Body'') =
   [(''---\<newline>title: x'', Text), (''tags: y\<newline>---'', Text), (''Body'', Text)]"
  by (simp add: splitIntoParagraphsWithHash_def seg_finish_def seg_loop_def seg_step_def
      seg_rest_def seg_init_def mk_paragraph_def startsWith_def
      trim_def is_space_def nl_def Let_def upt_rec)

text \<open>
  Claim C10. Every segment that \<^verbatim>\<open>splitIntoParagraphsWithHash\<close> returns has type text or
  code, whatever the document: no segment of type front matter is produced. A leading
  block between two \<^verbatim>\<open>---\<close> lines is split at its blank lines into ordinary text
  paragraphs, as the document of the second conjunct shows.
\<close>

theorem segments_are_text_or_code:
  "list_all (\<lambda>p. ptype p = Text \<or> ptype p = Code) (splitIntoParagraphsWithHash calculateHash doc) \<and>
   map (\<lambda>p. (content p, ptype p))
     (splitIntoParagraphsWithHash calculateHash
        ''---\<newline>title: x\<newline>\<newline>tags: y\<newline>---\<newline>\<newline>Body'') =
   [(''---\<newline>title: x'', Text), (''tags: y\<newline>---'', Text), (''Body'', Text)]"
  using segments_text_or_code frontmatter_example by blast

section \<open>Retry: properties\<close>

lemma retry_loop_lastError:
  "attempt < maxRetries \<Longrightarrow>
   retry_loop operation maxRetries aborted attempt l1 =
   retry_loop operation maxRetries aborted attempt l2"
  by (subst retry_loop.simps, subst (2) retry_loop.simps) simp

lemma retry_loop_exhausted:
  "retry_loop operation maxRetries aborted maxRetries (Some e) = (Inl (Thrown_TranslationError e), [])"
  by (subst retry_loop.simps) simp


lemma retry_loop_success:
  "attempt < maxRetries \<Longrightarrow> \<not> aborted attempt \<Longrightarrow> operation attempt = Inr v \<Longrightarrow>
   retry_loop operation maxRetries aborted attempt lastError = (Inr v, [Attempt attempt])"
  by (subst retry_loop.simps) simp

lemma retry_loop_fatal:
  "attempt < maxRetries \<Longrightarrow> \<not> aborted attempt \<Longrightarrow> operation attempt = Inl e \<Longrightarrow>
   \<not> retryable (classifyError e) \<Longrightarrow>
   retry_loop operation maxRetries aborted attempt lastError =
   (Inl (Thrown_TranslationError (classifyError e)), [Attempt attempt])"
  by (subst retry_loop.simps) simp

lemma retry_loop_last:
  "Suc attempt = maxRetries \<Longrightarrow> \<not> aborted attempt \<Longrightarrow> operation attempt = Inl e \<Longrightarrow>
   retryable (classifyError e) \<Longrightarrow>
   retry_loop operation maxRetries aborted attempt lastError =
   (Inl (Thrown_TranslationError (classifyError e)), [Attempt attempt])"
  by (subst retry_loop.simps) (auto simp: retry_loop_exhausted Let_def)

lemma retry_loop_retry:
  "Suc attempt < maxRetries \<Longrightarrow> \<not> aborted attempt \<Longrightarrow> operation attempt = Inl e \<Longrightarrow>
   retryable (classifyError e) \<Longrightarrow>
   retry_loop operation maxRetries aborted attempt lastError =
   (fst (retry_loop operation maxRetries aborted (Suc attempt) None),
    [Attempt attempt,
     Sleep (if code (classifyError e) = RATE_LIMIT then 60000 else 1000 * 2 ^ attempt)] @
    snd (retry_loop operation maxRetries aborted (Suc attempt) None))"
  by (subst retry_loop.simps)
    (auto simp: Let_def RATE_LIMIT_DELAY_MS_def RETRY_DELAY_MS_def split: prod.splits
      dest: retry_loop_lastError [of "Suc attempt" maxRetries operation aborted "Some (classifyError e)" None])

lemma retry_prefix_snoc:
  "retry_prefix (es @ [e]) =
   retry_prefix es @
   [Attempt (length es),
    Sleep (if code (classifyError e) = RATE_LIMIT then 60000 else 1000 * 2 ^ length es)]"
  by (simp add: retry_prefix_def nth_append) (rule arg_cong [where f = concat], simp)

text \<open>After the retried failures \<open>es\<close> the loop is at iteration \<open>length es\<close>.\<close>

lemma retry_loop_prefix:
  assumes "length es < maxRetries"
    and "\<forall>j<length es. operation j = Inl (es ! j) \<and> retryable (classifyError (es ! j))"
    and "\<forall>j<length es. \<not> aborted j"
  shows "withRetry operation maxRetries aborted =
         (fst (retry_loop operation maxRetries aborted (length es) None),
          retry_prefix es @ snd (retry_loop operation maxRetries aborted (length es) None))"
  using assms
proof (induction es rule: rev_induct)
  case Nil
  then show ?case by (simp add: withRetry_def retry_prefix_def)
next
  case (snoc e es)
  have IH: "withRetry operation maxRetries aborted =
         (fst (retry_loop operation maxRetries aborted (length es) None),
          retry_prefix es @ snd (retry_loop operation maxRetries aborted (length es) None))"
    using snoc.prems by (intro snoc.IH) (auto simp: nth_append split: if_splits)
  have e: "operation (length es) = Inl e" "retryable (classifyError e)" "\<not> aborted (length es)"
    using snoc.prems by (auto simp: nth_append)
  have "Suc (length es) < maxRetries" using snoc.prems by simp
  then have "retry_loop operation maxRetries aborted (length es) None =
      (fst (retry_loop operation maxRetries aborted (Suc (length es)) None),
       [Attempt (length es),
        Sleep (if code (classifyError e) = RATE_LIMIT then 60000 else 1000 * 2 ^ length es)] @
       snd (retry_loop operation maxRetries aborted (Suc (length es)) None))"
    using e by (intro retry_loop_retry) simp_all
  then show ?case using IH by (simp add: retry_prefix_snoc)
qed


lemma classify_other_fatal:
  "code (classifyError (Thrown_other m)) \<in> {AUTH_ERROR, CANCELLED} \<longleftrightarrow>
   \<not> retryable (classifyError (Thrown_other m))"
  by (simp add: classifyError_def Let_def)

text \<open>
  Claim C4. Let the first \<open>length es\<close> iterations of \<^verbatim>\<open>withRetry\<close> fail with errors that are
  classified as retryable, with no cancellation seen, and let there be an iteration left.
  Up to there the function has slept 60000 ms after every rate-limit error and
  \<open>1000 * 2 ^ j\<close> ms after any other error of iteration \<open>j\<close>. In the next iteration an error
  classified as not retryable is thrown at once, with no sleep and no further call; a
  retryable error in the last iteration (\<open>maxRetries\<close> calls made) is thrown as classified,
  the last one; a value is returned. The errors that \<^verbatim>\<open>classifyError\<close> itself marks as
  not retryable are those it gives the code AUTH_ERROR or CANCELLED. The default number
  of attempts is 3.
\<close>

theorem withRetry_policy:
  assumes "length es < maxRetries"
    and "\<forall>j<length es. operation j = Inl (es ! j) \<and> retryable (classifyError (es ! j))"
    and "\<forall>j\<le>length es. \<not> aborted j"
  shows "(\<forall>e. operation (length es) = Inl e \<and> \<not> retryable (classifyError e) \<longrightarrow>
            withRetry operation maxRetries aborted =
            (Inl (Thrown_TranslationError (classifyError e)), retry_prefix es @ [Attempt (length es)])) \<and>
         (\<forall>e. operation (length es) = Inl e \<and> retryable (classifyError e) \<and>
               Suc (length es) = maxRetries \<longrightarrow>
            withRetry operation maxRetries aborted =
            (Inl (Thrown_TranslationError (classifyError e)), retry_prefix es @ [Attempt (length es)])) \<and>
         (\<forall>v. operation (length es) = Inr v \<longrightarrow>
            withRetry operation maxRetries aborted = (Inr v, retry_prefix es @ [Attempt (length es)])) \<and>
         (\<forall>m. code (classifyError (Thrown_other m)) \<in> {AUTH_ERROR, CANCELLED} \<longleftrightarrow>
              \<not> retryable (classifyError (Thrown_other m))) \<and>
         DEFAULT_MAX_RETRIES = 3"
proof -
  have pre: "withRetry operation maxRetries aborted =
         (fst (retry_loop operation maxRetries aborted (length es) None),
          retry_prefix es @ snd (retry_loop operation maxRetries aborted (length es) None))"
    using assms by (intro retry_loop_prefix) auto
  have na: "\<not> aborted (length es)" using assms(3) by simp
  have fatal: "withRetry operation maxRetries aborted =
      (Inl (Thrown_TranslationError (classifyError e)), retry_prefix es @ [Attempt (length es)])"
    if "operation (length es) = Inl e" "\<not> retryable (classifyError e)" for e
    using pre assms(1) na that
      retry_loop_fatal [where operation = operation and attempt = "length es" and e = e
        and aborted = aborted and maxRetries = maxRetries and lastError = None]
    by simp
  have last: "withRetry operation maxRetries aborted =
      (Inl (Thrown_TranslationError (classifyError e)), retry_prefix es @ [Attempt (length es)])"
    if "operation (length es) = Inl e" "retryable (classifyError e)" "Suc (length es) = maxRetries" for e
    using pre na that
      retry_loop_last [where operation = operation and attempt = "length es" and e = e
        and aborted = aborted and maxRetries = maxRetries and lastError = None]
    by simp
  have ok: "withRetry operation maxRetries aborted = (Inr v, retry_prefix es @ [Attempt (length es)])"
    if "operation (length es) = Inr v" for v
    using pre assms(1) na that
      retry_loop_success [where operation = operation and attempt = "length es" and v = v
        and aborted = aborted and maxRetries = maxRetries and lastError = None]
    by simp
  show ?thesis
    using fatal last ok classify_other_fatal by (simp add: DEFAULT_MAX_RETRIES_def)
qed

section \<open>The dispatcher: properties\<close>

lemma first_rejection_none:
  "\<forall>x\<in>set outs. \<exists>v. x = Inr v \<Longrightarrow> first_rejection t k outs = None"
  by (induction t k outs rule: first_rejection.induct) auto

lemma first_rejection_mem:
  "first_rejection t k outs = Some (tm, e) \<Longrightarrow> Inl e \<in> set outs"
  by (induction t k outs arbitrary: tm e rule: first_rejection.induct)
    (auto split: option.splits if_splits)

lemma first_rejection_not_none:
  "Inl e0 \<in> set outs \<Longrightarrow> first_rejection t k outs \<noteq> None"
  by (induction t k outs rule: first_rejection.induct) (auto split: option.splits)

lemma first_rejection_some:
  "Inl e0 \<in> set outs \<Longrightarrow> \<exists>tm e. first_rejection t k outs = Some (tm, e) \<and> Inl e \<in> set outs"
  using first_rejection_not_none [of e0 outs t k] first_rejection_mem [of t k outs]
  by (cases "first_rejection t k outs") auto

lemma fulfilled_map_Inr: "fulfilled (map (\<lambda>x. Inr (f x)) xs) = map f xs"
  by (induction xs) auto

lemma batch_promise_fst:
  "i \<le> k \<Longrightarrow> fst (batch_promise w i (k - i, ps ! k)) =
   (case unit_result w ps k of Inl e \<Rightarrow> Inl e | Inr r \<Rightarrow> Inr (k, r))"
  by (auto simp: batch_promise_def unit_result_def Let_def split: prod.splits sum.splits)

lemma batch_promise_snd:
  "i \<le> k \<Longrightarrow> snd (batch_promise w i (k - i, ps ! k)) = unit_calls w ps k"
  by (auto simp: batch_promise_def unit_calls_def Let_def split: prod.splits sum.splits)

lemma batch_enumerate:
  "map f (enumerate 0 (take c (drop i ps))) =
   map (\<lambda>k. f (k - i, ps ! k)) [i..<min (i + c) (length ps)]"
proof (rule nth_equalityI)
  show "length (map f (enumerate 0 (take c (drop i ps)))) =
        length (map (\<lambda>k. f (k - i, ps ! k)) [i..<min (i + c) (length ps)])"
    by auto
next
  fix b assume "b < length (map f (enumerate 0 (take c (drop i ps))))"
  then have b: "b < c" "i + b < length ps" by auto
  then have "enumerate 0 (take c (drop i ps)) ! b = (b, ps ! (i + b))"
    by (simp add: nth_enumerate_eq)
  moreover have "[i..<min (i + c) (length ps)] ! b = i + b"
    using b by simp
  ultimately show "map f (enumerate 0 (take c (drop i ps))) ! b =
      map (\<lambda>k. f (k - i, ps ! k)) [i..<min (i + c) (length ps)] ! b"
    using b by simp
qed

lemma batch_outcomes:
  "map (\<lambda>bp. fst (batch_promise w i bp)) (enumerate 0 (take c (drop i ps))) =
   map (\<lambda>k. case unit_result w ps k of Inl e \<Rightarrow> Inl e | Inr r \<Rightarrow> Inr (k, r))
     [i..<min (i + c) (length ps)]"
  by (simp add: batch_enumerate batch_promise_fst)

lemma batch_calls:
  "concat (map (\<lambda>bp. snd (batch_promise w i bp)) (enumerate 0 (take c (drop i ps)))) =
   concat (map (unit_calls w ps) [i..<min (i + c) (length ps)])"
proof -
  have e: "map (\<lambda>k. snd (batch_promise w i (k - i, ps ! k))) [i..<min (i + c) (length ps)] =
        map (unit_calls w ps) [i..<min (i + c) (length ps)]"
    by (simp add: batch_promise_snd)
  show ?thesis unfolding batch_enumerate e by (rule refl)
qed

lemma length_filled [simp]: "length (filled r results a b) = length results"
  by (simp add: filled_def)

lemma filled_empty: "b \<le> a \<Longrightarrow> filled r results a b = results"
  by (rule nth_equalityI) (auto simp: filled_def)

lemma filled_filled:
  "a \<le> b \<Longrightarrow> b \<le> c \<Longrightarrow> filled r (filled r results a b) b c = filled r results a c"
  by (rule nth_equalityI) (auto simp: filled_def)

lemma filled_all: "filled r (replicate n None) 0 n = map (\<lambda>k. Some (r k)) [0..<n]"
  by (rule nth_equalityI) (auto simp: filled_def)

lemma store_results_snoc:
  "store_results results (xs @ [(k, v)]) = (store_results results xs)[k := Some v]"
  by (simp add: store_results_def)

lemma length_store_results [simp]: "length (store_results results xs) = length results"
  by (induction xs rule: rev_induct) (auto simp: store_results_def)

lemma store_results_filled:
  "b \<le> length results \<Longrightarrow>
   store_results results (map (\<lambda>k. (k, r k)) [a..<b]) = filled r results a b"
proof (induction b)
  case 0
  then show ?case by (simp add: store_results_def filled_empty)
next
  case (Suc b)
  show ?case
  proof (cases "a \<le> b")
    case True
    have "store_results results (map (\<lambda>k. (k, r k)) [a..<Suc b]) =
          (filled r results a b)[b := Some (r b)]"
      using True Suc by (simp add: store_results_snoc)
    also have "\<dots> = filled r results a (Suc b)"
      using Suc.prems True by (intro nth_equalityI) (auto simp: filled_def nth_list_update)
    finally show ?thesis .
  next
    case False
    then show ?thesis by (simp add: store_results_def filled_empty)
  qed
qed

text \<open>One batch whose paragraphs all translate.\<close>

lemma batch_loop_step:
  assumes "i < length ps" "\<not> aborted_at_batch w i"
    and ok: "\<forall>k. i \<le> k \<and> k < min (i + c) (length ps) \<longrightarrow> unit_result w ps k = Inr (r k)"
    and len: "length results = length ps"
  shows "batch_loop w ps c i results calls =
         batch_loop w ps c (i + c) (filled r results i (min (i + c) (length ps)))
           (calls @ concat (map (unit_calls w ps) [i..<min (i + c) (length ps)]))"
proof -
  let ?m = "min (i + c) (length ps)"
  have outs: "map (\<lambda>bp. fst (batch_promise w i bp)) (enumerate 0 (take c (drop i ps))) =
      map (\<lambda>k. Inr (k, r k)) [i..<?m]"
    unfolding batch_outcomes using ok by simp
  have "Promise_all (settled_at w) i (map (\<lambda>k. Inr (k, r k)) [i..<?m]) =
        Inr (map (\<lambda>k. (k, r k)) [i..<?m])"
    by (simp add: Promise_all_def first_rejection_none fulfilled_map_Inr)
  moreover have "store_results results (map (\<lambda>k. (k, r k)) [i..<?m]) = filled r results i ?m"
    using len by (intro store_results_filled) simp
  ultimately show ?thesis
    using assms(1,2) by (subst batch_loop.simps) (simp add: outs batch_calls)
qed

text \<open>A batch in which a paragraph fails: the dispatcher rejects with the error of one
  of the batch's paragraphs, after every paragraph of the batch has made its calls.\<close>

lemma batch_loop_reject:
  assumes "i < length ps" "\<not> aborted_at_batch w i"
    and bad: "i \<le> k0" "k0 < min (i + c) (length ps)" "unit_result w ps k0 = Inl e0"
  shows "\<exists>k e. i \<le> k \<and> k < min (i + c) (length ps) \<and> unit_result w ps k = Inl e \<and>
           batch_loop w ps c i results calls =
           Some (Inl e, calls @ concat (map (unit_calls w ps) [i..<min (i + c) (length ps)]))"
proof -
  let ?m = "min (i + c) (length ps)"
  let ?outs = "map (\<lambda>k. case unit_result w ps k of Inl e \<Rightarrow> Inl e | Inr r \<Rightarrow> Inr (k, r)) [i..<?m]"
  have "Inl e0 \<in> set ?outs"
    using bad by (auto simp: image_iff intro!: bexI [of _ k0])
  from first_rejection_some [OF this, of "settled_at w" i]
  obtain tm e where fr: "first_rejection (settled_at w) i ?outs = Some (tm, e)" and "Inl e \<in> set ?outs"
    by blast
  then obtain k where k: "i \<le> k" "k < ?m" "unit_result w ps k = Inl e"
    by (auto split: sum.splits)
  have "batch_loop w ps c i results calls =
        Some (Inl e, calls @ concat (map (unit_calls w ps) [i..<?m]))"
    using assms(1,2) fr
    by (subst batch_loop.simps) (simp add: batch_outcomes batch_calls Promise_all_def)
  with k show ?thesis by blast
qed


lemma batch_loop_exit:
  "length ps \<le> i \<Longrightarrow> batch_loop w ps c i results calls = Some (Inr results, calls)"
  by (subst batch_loop.simps) simp

text \<open>\<open>m\<close> batches whose paragraphs all translate.\<close>

lemma batch_loop_skip:
  assumes "\<forall>j<m. i + j * c < length ps \<longrightarrow> \<not> aborted_at_batch w (i + j * c)"
    and "\<forall>k. i \<le> k \<and> k < min (i + m * c) (length ps) \<longrightarrow> unit_result w ps k = Inr (r k)"
    and "length results = length ps"
  shows "batch_loop w ps c i results calls =
         batch_loop w ps c (i + m * c) (filled r results i (min (i + m * c) (length ps)))
           (calls @ concat (map (unit_calls w ps) [i..<min (i + m * c) (length ps)]))"
  using assms
proof (induction m arbitrary: i results calls)
  case 0
  then show ?case by (simp add: filled_empty)
next
  case (Suc m)
  let ?n = "length ps"
  show ?case
  proof (cases "i < ?n")
    case False
    then show ?thesis by (simp add: batch_loop_exit filled_empty)
  next
    case True
    let ?m1 = "min (i + c) ?n"
    let ?m2 = "min (i + c + m * c) ?n"
    have na: "\<not> aborted_at_batch w i" using Suc.prems(1) True by force
    have ok1: "\<forall>k. i \<le> k \<and> k < ?m1 \<longrightarrow> unit_result w ps k = Inr (r k)"
      using Suc.prems(2) by auto
    have step: "batch_loop w ps c i results calls =
        batch_loop w ps c (i + c) (filled r results i ?m1)
          (calls @ concat (map (unit_calls w ps) [i..<?m1]))"
      using True na ok1 Suc.prems(3) by (rule batch_loop_step)
    have ab: "\<forall>j<m. (i + c) + j * c < ?n \<longrightarrow> \<not> aborted_at_batch w ((i + c) + j * c)"
    proof (intro allI impI)
      fix j assume "j < m" "(i + c) + j * c < ?n"
      then show "\<not> aborted_at_batch w ((i + c) + j * c)"
        using Suc.prems(1) [rule_format, of "Suc j"] by (simp add: add.assoc)
    qed
    have ok2: "\<forall>k. i + c \<le> k \<and> k < ?m2 \<longrightarrow> unit_result w ps k = Inr (r k)"
      using Suc.prems(2) by (auto simp: add.assoc)
    have "batch_loop w ps c (i + c) (filled r results i ?m1)
            (calls @ concat (map (unit_calls w ps) [i..<?m1])) =
          batch_loop w ps c (i + c + m * c) (filled r (filled r results i ?m1) (i + c) ?m2)
            ((calls @ concat (map (unit_calls w ps) [i..<?m1])) @
             concat (map (unit_calls w ps) [i + c..<?m2]))"
      using ab ok2 Suc.prems(3) by (intro Suc.IH) simp_all
    moreover have "filled r (filled r results i ?m1) (i + c) ?m2 = filled r results i ?m2"
      using Suc.prems(3) by (intro nth_equalityI) (auto simp: filled_def)
    moreover have "[i..<?m1] @ [i + c..<?m2] = [i..<?m2]"
    proof (cases "i + c \<le> ?n")
      case True
      then have m: "?m1 = i + c" "i + c \<le> ?m2" by auto
      have "[i..<i + c + (?m2 - (i + c))] = [i..<i + c] @ [i + c..<i + c + (?m2 - (i + c))]"
        by (rule upt_add_eq_append) simp
      then show ?thesis using m by simp
    next
      case False
      then have "?m1 = ?n" "?m2 = ?n" "[i + c..<?m2] = []" by auto
      then show ?thesis by simp
    qed
    ultimately show ?thesis
      using step by (simp add: add.assoc add.commute [of c] flip: map_append concat_append)
  qed
qed

lemma unit_result_settled [simp]: "unit_result (w\<lparr>settled_at := t\<rparr>) ps k = unit_result w ps k"
  by (simp add: unit_result_def translate_def)

lemma unit_calls_settled [simp]: "unit_calls (w\<lparr>settled_at := t\<rparr>) ps k = unit_calls w ps k"
  by (simp add: unit_calls_def translate_def)

lemma unit_calls_settled_fun: "unit_calls (w\<lparr>settled_at := t\<rparr>) ps = unit_calls w ps"
  by (rule ext) simp

lemma translateParagraphs_ok:
  assumes c: "0 < c" and na: "\<forall>i<length ps. \<not> aborted_at_batch w i"
    and ok: "\<forall>k<length ps. unit_result w ps k = Inr (r k)"
  shows "translateParagraphs w ps c =
         Some (Inr (map (\<lambda>k. Some (r k)) [0..<length ps]),
               concat (map (unit_calls w ps) [0..<length ps]))"
proof -
  let ?n = "length ps"
  have n: "?n \<le> ?n * c" using c by simp
  then have m: "min (?n * c) ?n = ?n" by simp
  have "batch_loop w ps c 0 (replicate ?n None) [] =
        batch_loop w ps c (0 + ?n * c) (filled r (replicate ?n None) 0 (min (0 + ?n * c) ?n))
          ([] @ concat (map (unit_calls w ps) [0..<min (0 + ?n * c) ?n]))"
    using na ok by (intro batch_loop_skip) simp_all
  also have "\<dots> = Some (Inr (filled r (replicate ?n None) 0 ?n),
                        concat (map (unit_calls w ps) [0..<?n]))"
    using n by (simp add: m batch_loop_exit)
  finally show ?thesis by (simp add: translateParagraphs_def filled_all)
qed

text \<open>The dispatcher reaches batch \<open>b\<close> when the batches before it translate.\<close>

lemma translateParagraphs_reach:
  assumes "b * c < length ps" "\<forall>j<b. \<not> aborted_at_batch w (j * c)"
    and "\<forall>k<b * c. unit_result w ps k = Inr (r k)"
  shows "translateParagraphs w ps c =
         batch_loop w ps c (b * c) (filled r (replicate (length ps) None) 0 (b * c))
           (concat (map (unit_calls w ps) [0..<b * c]))"
proof -
  have m: "min (b * c) (length ps) = b * c" using assms(1) by simp
  have "batch_loop w ps c 0 (replicate (length ps) None) [] =
        batch_loop w ps c (0 + b * c)
          (filled r (replicate (length ps) None) 0 (min (0 + b * c) (length ps)))
          ([] @ concat (map (unit_calls w ps) [0..<min (0 + b * c) (length ps)]))"
    using assms by (intro batch_loop_skip) (simp_all add: m)
  then show ?thesis by (simp add: translateParagraphs_def m)
qed

lemma upt_split: "a \<le> b \<Longrightarrow> [0..<a] @ [a..<b] = [0..<b]"
  by (metis le_add_diff_inverse upt_add_eq_append zero_le)

text \<open>
  Claim C3. Let the concurrency cap be positive and no cancellation be seen. When every
  paragraph translates, the dispatcher returns one result per paragraph, the result of
  paragraph \<open>k\<close> at position \<open>k\<close>, whatever the times \<open>t\<close> at which the calls settle. The
  paragraphs are taken in consecutive batches of \<open>maxConcurrency\<close>: when the batches before
  batch \<open>b\<close> translate and a paragraph of batch \<open>b\<close> fails, the dispatcher rejects with the
  error of a paragraph of that batch, every paragraph up to the end of batch \<open>b\<close> has made
  its calls, and no paragraph of a later batch has made any.
\<close>

theorem dispatch_in_input_order:
  assumes "0 < maxConcurrency" and "\<forall>i. \<not> aborted_at_batch w i"
  shows "((\<forall>k<length ps. unit_result w ps k = Inr (r k)) \<longrightarrow>
            (\<forall>t. translateParagraphs (w\<lparr>settled_at := t\<rparr>) ps maxConcurrency =
               Some (Inr (map (\<lambda>k. Some (r k)) [0..<length ps]),
                     concat (map (unit_calls w ps) [0..<length ps])))) \<and>
         (\<forall>b k0 e0.
            b * maxConcurrency \<le> k0 \<and>
            k0 < min (b * maxConcurrency + maxConcurrency) (length ps) \<and>
            (\<forall>k<b * maxConcurrency. unit_result w ps k = Inr (r k)) \<and>
            unit_result w ps k0 = Inl e0 \<longrightarrow>
            (\<exists>k e. b * maxConcurrency \<le> k \<and>
               k < min (b * maxConcurrency + maxConcurrency) (length ps) \<and>
               unit_result w ps k = Inl e \<and>
               translateParagraphs w ps maxConcurrency =
               Some (Inl e, concat (map (unit_calls w ps)
                             [0..<min (b * maxConcurrency + maxConcurrency) (length ps)]))))"
proof (intro conjI impI allI)
  fix t
  assume ok: "\<forall>k<length ps. unit_result w ps k = Inr (r k)"
  have "translateParagraphs (w\<lparr>settled_at := t\<rparr>) ps maxConcurrency =
      Some (Inr (map (\<lambda>k. Some (r k)) [0..<length ps]),
            concat (map (unit_calls (w\<lparr>settled_at := t\<rparr>) ps) [0..<length ps]))"
    using assms ok by (intro translateParagraphs_ok) simp_all
  then show "translateParagraphs (w\<lparr>settled_at := t\<rparr>) ps maxConcurrency =
      Some (Inr (map (\<lambda>k. Some (r k)) [0..<length ps]),
            concat (map (unit_calls w ps) [0..<length ps]))"
    by (simp add: unit_calls_settled_fun)
next
  fix b k0 e0
  let ?c = maxConcurrency
  let ?m = "min (b * ?c + ?c) (length ps)"
  assume h: "b * ?c \<le> k0 \<and> k0 < ?m \<and>
             (\<forall>k<b * ?c. unit_result w ps k = Inr (r k)) \<and> unit_result w ps k0 = Inl e0"
  then have lt: "b * ?c < length ps" by simp
  have reach: "translateParagraphs w ps ?c =
      batch_loop w ps ?c (b * ?c) (filled r (replicate (length ps) None) 0 (b * ?c))
        (concat (map (unit_calls w ps) [0..<b * ?c]))"
    using lt assms(2) h by (intro translateParagraphs_reach) simp_all
  from batch_loop_reject [of "b * ?c" ps w k0 ?c e0
      "filled r (replicate (length ps) None) 0 (b * ?c)" "concat (map (unit_calls w ps) [0..<b * ?c])"]
  obtain k e where ke: "b * ?c \<le> k" "k < ?m" "unit_result w ps k = Inl e"
    "batch_loop w ps ?c (b * ?c) (filled r (replicate (length ps) None) 0 (b * ?c))
        (concat (map (unit_calls w ps) [0..<b * ?c])) =
     Some (Inl e, concat (map (unit_calls w ps) [0..<b * ?c]) @
                  concat (map (unit_calls w ps) [b * ?c..<?m]))"
    using lt assms(2) h by blast
  have "[0..<b * ?c] @ [b * ?c..<?m] = [0..<?m]"
    using lt by (intro upt_split) simp
  then have "concat (map (unit_calls w ps) [0..<b * ?c]) @
             concat (map (unit_calls w ps) [b * ?c..<?m]) =
             concat (map (unit_calls w ps) [0..<?m])"
    by (metis concat_append map_append)
  with reach ke
  show "\<exists>k e. b * ?c \<le> k \<and> k < ?m \<and> unit_result w ps k = Inl e \<and>
          translateParagraphs w ps ?c = Some (Inl e, concat (map (unit_calls w ps) [0..<?m]))"
    by auto
qed





section \<open>Examples of the retry policy and of the dispatcher\<close>

lemma classify_429:
  "classifyError (Thrown_other ''429'') =
   \<lparr>message = ''Rate limit exceeded. Please wait before retrying.'', code = RATE_LIMIT, retryable = True\<rparr>"
  by code_simp

lemma classify_network:
  "classifyError (Thrown_other ''Network'') =
   \<lparr>message = ''Network error. Please check your connection.'', code = NETWORK_ERROR, retryable = True\<rparr>"
  by code_simp

lemma classify_boom:
  "classifyError (Thrown_other ''boom'') = \<lparr>message = ''boom'', code = UNKNOWN, retryable = True\<rparr>"
  by code_simp

lemma classify_401:
  "classifyError (Thrown_other ''401'') =
   \<lparr>message = ''Authentication failed. Please check your API key.'', code = AUTH_ERROR, retryable = False\<rparr>"
  by code_simp

theorem withRetry_policy_witness:
  "withRetry (\<lambda>k. if k = 0 then Inl (Thrown_other ''429'')
                   else if k = 1 then Inl (Thrown_other ''Network'')
                   else (Inl (Thrown_other ''boom'') :: thrown + TranslationResult))
     3 (\<lambda>k. False) =
   (Inl (Thrown_TranslationError \<lparr>message = ''boom'', code = UNKNOWN, retryable = True\<rparr>),
    [Attempt 0, Sleep 60000, Attempt 1, Sleep 2000, Attempt 2]) \<and>
   withRetry (\<lambda>k. (Inl (Thrown_other ''401'') :: thrown + TranslationResult)) 3 (\<lambda>k. False) =
   (Inl (Thrown_TranslationError
      \<lparr>message = ''Authentication failed. Please check your API key.'', code = AUTH_ERROR,
       retryable = False\<rparr>), [Attempt 0])"
proof -
  let ?op = "\<lambda>k::nat. if k = 0 then Inl (Thrown_other ''429'')
                   else if k = 1 then Inl (Thrown_other ''Network'')
                   else (Inl (Thrown_other ''boom'') :: thrown + TranslationResult)"
  let ?es = "[Thrown_other ''429'', Thrown_other ''Network'']"
  have h1: "length ?es < 3" by simp
  have h2: "\<forall>j<length ?es. ?op j = Inl (?es ! j) \<and> retryable (classifyError (?es ! j))"
    by (auto simp: less_Suc_eq classify_429 classify_network)
  have h3: "\<forall>j\<le>length ?es. \<not> (\<lambda>k. False) j" by simp
  have a: "withRetry ?op 3 (\<lambda>k. False) =
      (Inl (Thrown_TranslationError (classifyError (Thrown_other ''boom''))),
       retry_prefix ?es @ [Attempt (length ?es)])"
    using withRetry_policy [OF h1 h2 h3, THEN conjunct2, THEN conjunct1]
    by (simp add: classify_boom)
  let ?op2 = "\<lambda>k::nat. (Inl (Thrown_other ''401'') :: thrown + TranslationResult)"
  have b: "withRetry ?op2 3 (\<lambda>k. False) =
      (Inl (Thrown_TranslationError (classifyError (Thrown_other ''401''))),
       retry_prefix [] @ [Attempt (length ([] :: thrown list))])"
    using withRetry_policy [of "[]" 3 ?op2 "\<lambda>k. False", THEN conjunct1]
    by (simp add: classify_401)
  have p: "retry_prefix ?es = [Attempt 0, Sleep 60000, Attempt 1, Sleep 2000]"
    by (simp add: retry_prefix_def classify_429 classify_network upt_rec)
  show ?thesis
    using a b p by (simp add: classify_boom classify_401 retry_prefix_def)
qed

lemma calls_of_once [simp]: "calls_of k t [Attempt a] = [(k, t)]"
  by (simp add: calls_of_def)

lemma unit_ok:
  assumes "generateText w k 0 (ps ! k) = Inr res" "\<not> aborted_at_attempt w k 0"
  shows "unit_result w ps k = Inr res" "unit_calls w ps k = [(k, ps ! k)]"
  using assms
    retry_loop_success [where operation = "\<lambda>a. generateText w k a (ps ! k)" and attempt = 0
      and maxRetries = 3 and aborted = "aborted_at_attempt w k" and v = res and lastError = None]
  by (simp_all add: unit_result_def unit_calls_def translate_def withRetry_def DEFAULT_MAX_RETRIES_def)

lemma unit_fatal:
  assumes "generateText w k 0 (ps ! k) = Inl e" "\<not> retryable (classifyError e)"
    "\<not> aborted_at_attempt w k 0"
  shows "unit_result w ps k = Inl (Thrown_TranslationError (classifyError e))"
    "unit_calls w ps k = [(k, ps ! k)]"
  using assms
    retry_loop_fatal [where operation = "\<lambda>a. generateText w k a (ps ! k)" and attempt = 0
      and maxRetries = 3 and aborted = "aborted_at_attempt w k" and e = e and lastError = None]
  by (simp_all add: unit_result_def unit_calls_def translate_def withRetry_def DEFAULT_MAX_RETRIES_def)


lemma ex_units':
  "unit_result ex_world ps k = Inr (echo_result (ps ! k))"
  "unit_calls ex_world ps k = [(k, ps ! k)]"
  by (rule unit_ok; simp add: ex_world_def)+

lemma upt_3: "[0..<3] = [0, 1, 2]" "[0..<2] = [0, 1]"
  by (simp_all add: upt_rec)

theorem dispatch_in_input_order_witness:
  "translateParagraphs (ex_world\<lparr>settled_at := (\<lambda>k. 10 - k)\<rparr>) [''a'', ''b'', ''c''] 2 =
     Some (Inr [Some (echo_result ''a''), Some (echo_result ''b''), Some (echo_result ''c'')],
           [(0, ''a''), (1, ''b''), (2, ''c'')]) \<and>
   translateParagraphs
     (ex_world\<lparr>generateText := (\<lambda>k a t. if k = 1 then Inl (Thrown_other ''401'') else Inr (echo_result t))\<rparr>)
     [''a'', ''b'', ''c''] 2 =
     Some (Inl (Thrown_TranslationError
                  \<lparr>message = ''Authentication failed. Please check your API key.'',
                   code = AUTH_ERROR, retryable = False\<rparr>),
           [(0, ''a''), (1, ''b'')])"
proof -
  let ?ps = "[''a'', ''b'', ''c'']"
  have na: "\<forall>i. \<not> aborted_at_batch ex_world i" by (simp add: ex_world_def)
  have "\<forall>k<length ?ps. unit_result ex_world ?ps k = Inr (echo_result (?ps ! k))"
    by (simp add: ex_units')
  with dispatch_in_input_order [of 2 ex_world ?ps "\<lambda>k. echo_result (?ps ! k)", THEN conjunct1] na
  have a: "translateParagraphs (ex_world\<lparr>settled_at := (\<lambda>k. 10 - k)\<rparr>) ?ps 2 =
      Some (Inr (map (\<lambda>k. Some (echo_result (?ps ! k))) [0..<length ?ps]),
            concat (map (unit_calls ex_world ?ps) [0..<length ?ps]))"
    by simp
  let ?w = "ex_world\<lparr>generateText :=
              (\<lambda>k a t. if k = 1 then Inl (Thrown_other ''401'') else Inr (echo_result t))\<rparr>"
  let ?auth = "\<lparr>message = ''Authentication failed. Please check your API key.'',
                 code = AUTH_ERROR, retryable = False\<rparr>"
  have c401: "classifyError (Thrown_other ''401'') = ?auth" by (rule classify_401)
  have u0: "unit_result ?w ?ps 0 = Inr (echo_result ''a'')" "unit_calls ?w ?ps 0 = [(0, ''a'')]"
    using unit_ok [of ?w 0 ?ps "echo_result ''a''"] by (simp_all add: ex_world_def)
  have u1: "unit_result ?w ?ps 1 = Inl (Thrown_TranslationError ?auth)"
    "unit_calls ?w ?ps 1 = [(1, ''b'')]"
    using unit_fatal [of ?w 1 ?ps "Thrown_other ''401''"] by (simp_all add: ex_world_def c401)
  have na': "\<forall>i. \<not> aborted_at_batch ?w i" by (simp add: ex_world_def)
  have hyp: "0 * 2 \<le> (1::nat) \<and> 1 < min (0 * 2 + 2) (length ?ps) \<and>
      (\<forall>k<0 * 2. unit_result ?w ?ps k = Inr (echo_result (?ps ! k))) \<and>
      unit_result ?w ?ps 1 = Inl (Thrown_TranslationError ?auth)"
    using u1 by simp
  have pos: "0 < (2::nat)" by simp
  note inst = dispatch_in_input_order [where maxConcurrency = 2 and w = ?w and ps = ?ps
      and r = "\<lambda>k. echo_result (?ps ! k)", OF pos na', THEN conjunct2,
      THEN spec, THEN spec, THEN spec, THEN mp, OF hyp]
  from inst obtain k e where ke0: "k < min (0 * 2 + 2) (length ?ps)"
    "unit_result ?w ?ps k = Inl e"
    "translateParagraphs ?w ?ps 2 =
       Some (Inl e, concat (map (unit_calls ?w ?ps) [0..<min (0 * 2 + 2) (length ?ps)]))"
    by blast
  have "k = 1" using ke0(1,2) u0 by (cases "k = 0") auto
  then have b: "translateParagraphs ?w ?ps 2 =
      Some (Inl (Thrown_TranslationError ?auth), [(0, ''a''), (1, ''b'')])"
    using ke0 u0 u1 by (simp add: upt_3)
  show ?thesis using a b by (simp add: upt_3 ex_units')
qed

section \<open>Cancellation\<close>


lemma split_Hello:
  "splitIntoParagraphsWithHash h ''Hello'' =
   [\<lparr>content = ''Hello'', ptype = Text, hash = h ''Hello'', startLine = 0, endLine = 0\<rparr>]"
  by (simp add: splitIntoParagraphsWithHash_def seg_finish_def seg_loop_def seg_step_def
      seg_rest_def seg_init_def mk_paragraph_def startsWith_def
      trim_def is_space_def nl_def Let_def upt_rec)

lemma plan_Hello:
  "plan [] (splitIntoParagraphsWithHash h ''Hello'') =
   ([(0, \<lparr>content = ''Hello'', ptype = Text, hash = h ''Hello'', startLine = 0, endLine = 0\<rparr>)],
    [\<lparr>sourceContent = ''Hello'', translatedContent = [], sourceHash = h ''Hello''\<rparr>])"
  by (simp add: split_Hello plan_def plan_step_def existingHashMap_def enumerate_eq_zip)



section \<open>Forward translation: properties\<close>

lemma hashmap_fold_None:
  "(foldl (\<lambda>m p. m(sourceHash p \<mapsto> p)) m0 ex k = None) =
   (m0 k = None \<and> k \<notin> sourceHash ` set ex)"
  by (induction ex arbitrary: m0) auto

lemma existingHashMap_None:
  "(existingHashMap ex k = None) = (k \<notin> sourceHash ` set ex)"
  by (simp add: existingHashMap_def hashmap_fold_None)

lemma plan_step_eq:
  "plan_step m (ts, rs) (i, p) =
   (if needs_translation m p then ts @ [(i, p)] else ts, rs @ [planned_entry m p])"
  by (auto simp: plan_step_def needs_translation_def planned_entry_def split: option.splits)

lemma plan_fold:
  "foldl (plan_step m) (ts, rs) xs =
   (ts @ filter (\<lambda>ip. needs_translation m (snd ip)) xs, rs @ map (\<lambda>ip. planned_entry m (snd ip)) xs)"
proof (induction xs arbitrary: ts rs)
  case Nil
  show ?case by simp
next
  case (Cons x xs)
  obtain i p where x: "x = (i, p)" by (cases x)
  show ?case by (simp add: x plan_step_eq Cons.IH)
qed

lemma map_snd_enumerate: "map snd (enumerate n xs) = xs"
  by (simp add: enumerate_eq_zip)

lemma plan_eq:
  "plan existing segs =
   (filter (\<lambda>ip. needs_translation (existingHashMap existing) (snd ip)) (enumerate 0 segs),
    map (planned_entry (existingHashMap existing)) segs)"
proof -
  have "map (\<lambda>ip. planned_entry (existingHashMap existing) (snd ip)) (enumerate 0 segs) =
        map (planned_entry (existingHashMap existing)) (map snd (enumerate 0 segs))"
    by (simp only: map_map comp_def)
  also have "\<dots> = map (planned_entry (existingHashMap existing)) segs"
    by (simp only: map_snd_enumerate)
  finally show ?thesis
    unfolding plan_def plan_fold by simp
qed

lemma plan_indices:
  "(i, p) \<in> set (fst (plan existing segs)) \<Longrightarrow>
   i < length segs \<and> p = segs ! i \<and> needs_translation (existingHashMap existing) p"
  by (auto simp: plan_eq in_set_enumerate_eq)

text \<open>
  Claim C1. When every segment of the document has an entry with its hash in the prior
  mapping, \<^verbatim>\<open>translateIncremental\<close> returns a result without a single provider call:
  the number of reused paragraphs is the number of segments, the number of changed
  paragraphs is 0 (and no token usage is reported).
\<close>

theorem unchanged_document_dispatches_nothing:
  assumes "\<forall>p\<in>set (splitIntoParagraphsWithHash calculateHash doc). hash p \<in> sourceHash ` set existing"
  shows "\<exists>res. translateIncremental calculateHash w doc existing mc = Some (Inr res, []) \<and>
           reusedParagraphs res = int (length (splitIntoParagraphsWithHash calculateHash doc)) \<and>
           changedParagraphs res = 0 \<and> inc_tokenUsage res = None"
proof -
  let ?segs = "splitIntoParagraphsWithHash calculateHash doc"
  have "filter (\<lambda>ip. needs_translation (existingHashMap existing) (snd ip)) (enumerate 0 ?segs) = []"
    using assms
    by (auto simp: filter_empty_conv needs_translation_def existingHashMap_None in_set_enumerate_eq)
  then have "plan existing ?segs = ([], map (planned_entry (existingHashMap existing)) ?segs)"
    by (simp add: plan_eq)
  then show ?thesis
    by (simp add: translateIncremental_def finish_incremental_def Let_def)
qed


lemma split_Hello_World:
  "splitIntoParagraphsWithHash h ''Hello\<newline>\<newline>World'' =
   [\<lparr>content = ''Hello'', ptype = Text, hash = h ''Hello'', startLine = 0, endLine = 0\<rparr>,
    \<lparr>content = ''World'', ptype = Text, hash = h ''World'', startLine = 2, endLine = 2\<rparr>]"
  by (simp add: splitIntoParagraphsWithHash_def seg_finish_def seg_loop_def seg_step_def
      seg_rest_def seg_init_def mk_paragraph_def startsWith_def
      trim_def is_space_def nl_def Let_def upt_rec)

theorem unchanged_document_dispatches_nothing_witness:
  "\<exists>res. translateIncremental ex_hash ex_world ''Hello\<newline>\<newline>World''
            [\<lparr>sourceContent = ''World'', translatedContent = ''Monde'', sourceHash = ''#World''\<rparr>,
             \<lparr>sourceContent = ''Hello'', translatedContent = ''Bonjour'', sourceHash = ''#Hello''\<rparr>]
            None = Some (Inr res, []) \<and>
         reusedParagraphs res = 2 \<and> changedParagraphs res = 0 \<and> inc_tokenUsage res = None"
  using unchanged_document_dispatches_nothing [of ex_hash "''Hello\<newline>\<newline>World''"
      "[\<lparr>sourceContent = ''World'', translatedContent = ''Monde'', sourceHash = ''#World''\<rparr>,
        \<lparr>sourceContent = ''Hello'', translatedContent = ''Bonjour'', sourceHash = ''#Hello''\<rparr>]"
      ex_world None]
  by (simp add: split_Hello_World ex_hash_def)








text \<open>What \<^verbatim>\<open>translateIncremental\<close> returns, by the two branches of its code.\<close>

lemma translateIncremental_unfold:
  assumes "plan existing (splitIntoParagraphsWithHash h doc) = (ts, rps)"
  shows "translateIncremental h w doc existing mc =
     (if ts \<noteq> [] then
        (case translateParagraphs w (map (\<lambda>p. content (snd p)) ts)
                (case mc of None \<Rightarrow> 3 | Some c \<Rightarrow> c) of
           None \<Rightarrow> None
         | Some (Inl e, calls) \<Rightarrow> Some (Inl e, calls)
         | Some (Inr results, calls) \<Rightarrow>
             Some (finish_incremental (int (length (splitIntoParagraphsWithHash h doc)))
                     (int (length ts))
                     (fill_results ts results 0
                        (rps, \<lparr>prompt = 0, completion = 0, total_tokens = 0\<rparr>)), calls))
      else Some (finish_incremental (int (length (splitIntoParagraphsWithHash h doc)))
                   (int (length ts))
                   (Inr (rps, \<lparr>prompt = 0, completion = 0, total_tokens = 0\<rparr>)), []))"
  using assms by (simp add: translateIncremental_def Let_def)




lemma ex_translateParagraphs:
  "translateParagraphs ex_world ps 3 =
   Some (Inr (map (\<lambda>k. Some (echo_result (ps ! k))) [0..<length ps]),
         concat (map (\<lambda>k. [(k, ps ! k)]) [0..<length ps]))"
proof -
  have "translateParagraphs ex_world ps 3 =
      Some (Inr (map (\<lambda>k. Some (echo_result (ps ! k))) [0..<length ps]),
            concat (map (unit_calls ex_world ps) [0..<length ps]))"
  proof (rule translateParagraphs_ok)
    show "0 < (3::nat)" by simp
    show "\<forall>i<length ps. \<not> aborted_at_batch ex_world i" by (simp add: ex_world_def)
    show "\<forall>k<length ps. unit_result ex_world ps k = Inr (echo_result (ps ! k))"
      by (simp add: ex_units')
  qed
  moreover have "unit_calls ex_world ps = (\<lambda>k. [(k, ps ! k)])"
    by (rule ext) (simp add: ex_units')
  ultimately show ?thesis by simp
qed








subsection \<open>Token usage\<close>

lemma add_usage_assoc: "add_usage (add_usage a b) c = add_usage a (add_usage b c)"
  by (simp add: add_usage_def)

lemma foldl_add_usage: "foldl add_usage u us = add_usage u (sum_usage us)"
proof (induction us arbitrary: u)
  case Nil
  show ?case by (simp add: sum_usage_def add_usage_def)
next
  case (Cons a us)
  have "add_usage a (sum_usage us) = sum_usage (a # us)"
    by (simp add: sum_usage_def add_usage_def)
  then show ?case by (simp add: Cons add_usage_assoc)
qed

lemma fill_results_ok:
  assumes "\<forall>ip\<in>set ts. fst ip < length rps" "j + length ts \<le> n"
  shows "\<exists>rps'. fill_results ts (map (\<lambda>k. Some (r k)) [0..<n]) j (rps, u) =
           Inr (rps', foldl add_usage u (List.map_filter (\<lambda>k. tokenUsage (r k)) [j..<j + length ts]))"
  using assms
proof (induction ts arbitrary: j rps u)
  case Nil
  then show ?case by (simp add: List.map_filter_simps)
next
  case (Cons x ts)
  obtain index p where x: "x = (index, p)" by (cases x)
  let ?rps = "rps[index := (rps ! index)\<lparr>translatedContent := translatedText (r j)\<rparr>]"
  let ?u = "case tokenUsage (r j) of Some v \<Rightarrow> add_usage u v | None \<Rightarrow> u"
  have j: "j < n" "index < length rps" using Cons.prems by (auto simp: x)
  have "\<exists>rps'. fill_results ts (map (\<lambda>k. Some (r k)) [0..<n]) (Suc j) (?rps, ?u) =
      Inr (rps', foldl add_usage ?u
             (List.map_filter (\<lambda>k. tokenUsage (r k)) [Suc j..<Suc j + length ts]))"
    using Cons.prems by (intro Cons.IH) auto
  moreover have "[j..<j + length (x # ts)] = j # [Suc j..<Suc j + length ts]"
    by (subst upt_rec) simp
  ultimately show ?case
    using j by (auto simp: x List.map_filter_simps split: option.splits)
qed

text \<open>
  Claim C9, as amended. When the dispatched paragraphs all translate (positive cap, no
  cancellation), \<^verbatim>\<open>translateIncremental\<close> returns a result whose token usage is the sum,
  field by field, of the usages of those dispatched paragraphs whose result reports one;
  the field is present exactly when the summed total is positive. So it is absent when
  nothing was dispatched, and also when paragraphs were dispatched and none reported a
  positive total.
\<close>

theorem token_usage_is_sum_of_reported:
  assumes "0 < (case mc of None \<Rightarrow> 3 | Some c \<Rightarrow> c)"
    and "\<forall>i. \<not> aborted_at_batch w i"
    and "\<forall>k<length (fst (plan existing (splitIntoParagraphsWithHash calculateHash doc))).
           unit_result w
             (map (\<lambda>p. content (snd p)) (fst (plan existing (splitIntoParagraphsWithHash calculateHash doc))))
             k = Inr (r k)"
  shows "\<exists>res calls. translateIncremental calculateHash w doc existing mc = Some (Inr res, calls) \<and>
           changedParagraphs res =
             int (length (fst (plan existing (splitIntoParagraphsWithHash calculateHash doc)))) \<and>
           inc_tokenUsage res =
             (if total_tokens (sum_usage (List.map_filter (\<lambda>k. tokenUsage (r k))
                   [0..<length (fst (plan existing (splitIntoParagraphsWithHash calculateHash doc)))])) > 0
              then Some (sum_usage (List.map_filter (\<lambda>k. tokenUsage (r k))
                   [0..<length (fst (plan existing (splitIntoParagraphsWithHash calculateHash doc)))]))
              else None)"
proof -
  let ?segs = "splitIntoParagraphsWithHash calculateHash doc"
  obtain ts rps where p: "plan existing ?segs = (ts, rps)" by (cases "plan existing ?segs")
  let ?zero = "\<lparr>prompt = 0, completion = 0, total_tokens = 0\<rparr>"
  let ?us = "List.map_filter (\<lambda>k. tokenUsage (r k)) [0..<length ts]"
  have z: "add_usage ?zero u = u" for u by (simp add: add_usage_def)
  show ?thesis
  proof (cases "ts = []")
    case True
    then show ?thesis
      by (simp add: translateIncremental_unfold [OF p] p finish_incremental_def
          List.map_filter_simps sum_usage_def)
  next
    case False
    let ?ps = "map (\<lambda>p. content (snd p)) ts"
    have tp: "translateParagraphs w ?ps (case mc of None \<Rightarrow> 3 | Some c \<Rightarrow> c) =
        Some (Inr (map (\<lambda>k. Some (r k)) [0..<length ?ps]),
              concat (map (unit_calls w ?ps) [0..<length ?ps]))"
      using assms by (intro translateParagraphs_ok) (simp_all add: p)
    have "\<forall>ip\<in>set ts. fst ip < length rps"
      using plan_indices [of _ _ existing ?segs] p by (auto simp: plan_eq)
    from fill_results_ok [OF this, of 0 "length ts" r ?zero]
    obtain rps' where "fill_results ts (map (\<lambda>k. Some (r k)) [0..<length ts]) 0 (rps, ?zero) =
        Inr (rps', sum_usage ?us)"
      by (auto simp: foldl_add_usage z)
    then show ?thesis
      using False tp by (simp add: translateIncremental_unfold [OF p] p finish_incremental_def)
  qed
qed


lemma plan_Hello_World:
  "plan [] (splitIntoParagraphsWithHash h ''Hello\<newline>\<newline>World'') =
   ([(0, \<lparr>content = ''Hello'', ptype = Text, hash = h ''Hello'', startLine = 0, endLine = 0\<rparr>),
     (1, \<lparr>content = ''World'', ptype = Text, hash = h ''World'', startLine = 2, endLine = 2\<rparr>)],
    [\<lparr>sourceContent = ''Hello'', translatedContent = [], sourceHash = h ''Hello''\<rparr>,
     \<lparr>sourceContent = ''World'', translatedContent = [], sourceHash = h ''World''\<rparr>])"
  by (simp add: split_Hello_World plan_def plan_step_def existingHashMap_def enumerate_eq_zip upt_rec)

theorem token_usage_is_sum_of_reported_witness:
  "\<exists>res calls. translateIncremental ex_hash ex_world ''Hello\<newline>\<newline>World'' [] None =
       Some (Inr res, calls) \<and>
     changedParagraphs res = 2 \<and>
     inc_tokenUsage res = Some \<lparr>prompt = 4, completion = 6, total_tokens = 10\<rparr>"
proof -
  let ?doc = "''Hello\<newline>\<newline>World''"
  let ?ts = "fst (plan [] (splitIntoParagraphsWithHash ex_hash ?doc))"
  let ?ps = "map (\<lambda>p. content (snd p)) ?ts"
  have h1: "0 < (case (None :: nat option) of None \<Rightarrow> 3 | Some c \<Rightarrow> c)" by simp
  have h2: "\<forall>i. \<not> aborted_at_batch ex_world i" by (simp add: ex_world_def)
  have h3: "\<forall>k<length ?ts. unit_result ex_world ?ps k = Inr (echo_result (?ps ! k))"
    by (simp add: ex_units')
  have us: "List.map_filter (\<lambda>k. tokenUsage (echo_result (?ps ! k))) [0..<length ?ts] =
      [\<lparr>prompt = 2, completion = 3, total_tokens = 5\<rparr>,
       \<lparr>prompt = 2, completion = 3, total_tokens = 5\<rparr>]"
    by (simp add: plan_Hello_World echo_result_def List.map_filter_simps upt_rec)
  show ?thesis
    using token_usage_is_sum_of_reported [OF h1 h2 h3]
    unfolding us by (simp add: plan_Hello_World sum_usage_def)
qed

text \<open>A provider that reports no usage.\<close>

theorem token_usage_absent_counterexample:
  "translateIncremental ex_hash
     (ex_world\<lparr>generateText := (\<lambda>k a t. Inr \<lparr>translatedText = ''T:'' @ t, tokenUsage = None\<rparr>)\<rparr>)
     ''Hello'' [] None =
   Some (Inr \<lparr>inc_translatedText = ''T:Hello'',
              inc_paragraphs =
                [\<lparr>sourceContent = ''Hello'', translatedContent = ''T:Hello'', sourceHash = ''#Hello''\<rparr>],
              changedParagraphs = 1, reusedParagraphs = 0, inc_tokenUsage = None\<rparr>,
         [(0, ''Hello'')])"
proof -
  let ?w = "ex_world\<lparr>generateText := (\<lambda>k a t. Inr \<lparr>translatedText = ''T:'' @ t, tokenUsage = None\<rparr>)\<rparr>"
  let ?r = "\<lparr>translatedText = ''T:Hello'', tokenUsage = None\<rparr>"
  have u: "unit_result ?w [''Hello''] 0 = Inr ?r" "unit_calls ?w [''Hello''] 0 = [(0, ''Hello'')]"
    using unit_ok [of ?w 0 "[''Hello'']" ?r] by (simp_all add: ex_world_def)
  have "translateParagraphs ?w [''Hello''] 3 =
      Some (Inr (map (\<lambda>k. Some ?r) [0..<length [''Hello'']]),
            concat (map (unit_calls ?w [''Hello'']) [0..<length [''Hello'']]))"
  proof (rule translateParagraphs_ok)
    show "0 < (3::nat)" by simp
    show "\<forall>i<length [''Hello'']. \<not> aborted_at_batch ?w i" by (simp add: ex_world_def)
    show "\<forall>k<length [''Hello'']. unit_result ?w [''Hello''] k = Inr ?r" using u by simp
  qed
  then have "translateParagraphs ?w [''Hello''] 3 = Some (Inr [Some ?r], [(0, ''Hello'')])"
    using u by simp
  then show ?thesis
    by (simp add: translateIncremental_unfold [OF plan_Hello] split_Hello
        finish_incremental_def ex_hash_def)
qed

subsection \<open>Reverse translation without edits\<close>

lemma find_modified_unchanged: "find_modified (map translatedContent saved) saved = []"
  by (auto simp: find_modified_def filter_empty_conv)

text \<open>
  Claim C7. When the paragraphs of the edited translation are, position by position, the
  \<open>translatedContent\<close> entries of the prior mapping, \<^verbatim>\<open>reverseTranslate\<close> returns no
  modified index, makes no provider call, returns the prior mapping as it is, and returns
  as new source the \<open>sourceContent\<close> fields of the prior mapping joined in order with two
  line feeds.
\<close>

theorem reverse_unchanged_is_identity:
  assumes "splitIntoParagraphs edited = map translatedContent saved"
  shows "reverseTranslate calculateHash w mc edited saved =
         Some (Inr \<lparr>modifiedIndices = [], translatedParagraphs = [],
                    newSourceContent = join_with [nl, nl] (map sourceContent saved),
                    newParagraphs = saved\<rparr>, [])"
  using assms by (simp add: reverseTranslate_def find_modified_unchanged joinParagraphs_def)

lemma split_a_b: "splitIntoParagraphs ''a\<newline>\<newline>b'' = [''a'', ''b'']"
  by (simp add: splitIntoParagraphs_def trim_def is_space_def nl_def)

theorem reverse_unchanged_is_identity_witness:
  "reverseTranslate ex_hash ex_world None ''a\<newline>\<newline>b''
     [\<lparr>sourceContent = ''A'', translatedContent = ''a'', sourceHash = ''#A''\<rparr>,
      \<lparr>sourceContent = ''B'', translatedContent = ''b'', sourceHash = ''#B''\<rparr>] =
   Some (Inr \<lparr>modifiedIndices = [], translatedParagraphs = [],
              newSourceContent = ''A\<newline>\<newline>B'',
              newParagraphs =
                [\<lparr>sourceContent = ''A'', translatedContent = ''a'', sourceHash = ''#A''\<rparr>,
                 \<lparr>sourceContent = ''B'', translatedContent = ''b'', sourceHash = ''#B''\<rparr>]\<rparr>, [])"
  using reverse_unchanged_is_identity [of "''a\<newline>\<newline>b''"
      "[\<lparr>sourceContent = ''A'', translatedContent = ''a'', sourceHash = ''#A''\<rparr>,
        \<lparr>sourceContent = ''B'', translatedContent = ''b'', sourceHash = ''#B''\<rparr>]"
      ex_hash ex_world None]
  by (simp add: split_a_b nl_def)

section \<open>Reverse translation: the rebuilt mapping\<close>

lemma rebuild_step_eq:
  "rebuild_step h cur (srcs, nps) (i, c) =
   ((if i < length srcs then srcs[i := c] else srcs @ [c]),
    (if i < length nps then nps[i := rebuilt_entry h cur i c] else nps @ [rebuilt_entry h cur i c]))"
  by (simp add: rebuild_step_def rebuilt_entry_def)

text \<open>The rebuilding loop keeps the source paragraphs equal to the sources of the mapping.\<close>

lemma rebuild_sources:
  "srcs = map sourceContent nps \<Longrightarrow> foldl (rebuild_step h cur) (srcs, nps) xs = (srcs', nps') \<Longrightarrow>
   srcs' = map sourceContent nps'"
proof (induction xs arbitrary: srcs nps)
  case Nil
  then show ?case by auto
next
  case (Cons x xs)
  obtain i c where x: "x = (i, c)" by (cases x)
  let ?srcs = "if i < length srcs then srcs[i := c] else srcs @ [c]"
  let ?nps = "if i < length nps then nps[i := rebuilt_entry h cur i c] else nps @ [rebuilt_entry h cur i c]"
  have "?srcs = map sourceContent ?nps"
    using Cons.prems(1) by (simp add: map_update rebuilt_entry_def)
  moreover have "foldl (rebuild_step h cur) (?srcs, ?nps) xs = (srcs', nps')"
    using Cons.prems(2) by (simp add: x rebuild_step_eq)
  ultimately show ?case by (rule Cons.IH)
qed

text \<open>
  The rebuilding loop on entries with increasing indices, where every index from the
  length of the mapping up to an entry's index has an entry: each entry ends at its
  index, and the positions without an entry are as before.
\<close>

lemma rebuild_entries:
  assumes "length srcs = length nps"
    and "sorted_wrt (<) (map fst xs)"
    and "\<forall>x\<in>set xs. \<forall>i'. length nps \<le> i' \<and> i' < fst x \<longrightarrow> i' \<in> fst ` set xs"
    and "foldl (rebuild_step h cur) (srcs, nps) xs = (srcs', nps')"
  shows "(\<forall>x\<in>set xs. fst x < length nps' \<and> nps' ! fst x = rebuilt_entry h cur (fst x) (snd x)) \<and>
         (\<forall>i<length nps. i \<notin> fst ` set xs \<longrightarrow> nps' ! i = nps ! i) \<and>
         length nps \<le> length nps'"
  using assms
proof (induction xs arbitrary: srcs nps)
  case Nil
  then show ?case by simp
next
  case (Cons x xs)
  obtain i c where x: "x = (i, c)" by (cases x)
  let ?e = "rebuilt_entry h cur i c"
  let ?srcs = "if i < length srcs then srcs[i := c] else srcs @ [c]"
  let ?nps = "if i < length nps then nps[i := ?e] else nps @ [?e]"
  have less: "\<forall>y\<in>set xs. i < fst y" using Cons.prems(2) by (simp add: x)
  have i_le: "i \<le> length nps"
  proof (rule ccontr)
    assume "\<not> i \<le> length nps"
    then have "length nps \<in> fst ` set (x # xs)"
      using Cons.prems(3) by (auto simp: x)
    then show False using less \<open>\<not> i \<le> length nps\<close> by (auto simp: x)
  qed
  have len: "length ?srcs = length ?nps" using Cons.prems(1) by simp
  have sorted: "sorted_wrt (<) (map fst xs)" using Cons.prems(2) by simp
  have contig: "\<forall>y\<in>set xs. \<forall>i'. length ?nps \<le> i' \<and> i' < fst y \<longrightarrow> i' \<in> fst ` set xs"
  proof (intro ballI allI impI)
    fix y i' assume y: "y \<in> set xs" and i': "length ?nps \<le> i' \<and> i' < fst y"
    then have "length nps \<le> i'" by (auto split: if_splits)
    then have "i' \<in> fst ` set (x # xs)" using Cons.prems(3) y i' by auto
    moreover have "i' \<noteq> i" using i' i_le by (auto split: if_splits)
    ultimately show "i' \<in> fst ` set xs" by (auto simp: x)
  qed
  have fold: "foldl (rebuild_step h cur) (?srcs, ?nps) xs = (srcs', nps')"
    using Cons.prems(4) by (simp add: x rebuild_step_eq)
  note IH = Cons.IH [OF len sorted contig fold]
  have i_in: "i < length ?nps" using i_le by auto
  have i_notin: "i \<notin> fst ` set xs" using less by auto
  have at_i: "?nps ! i = ?e" using i_le by (auto simp: nth_append)
  have head: "i < length nps' \<and> nps' ! i = ?e"
    using IH i_in i_notin at_i by auto
  have old: "nps' ! k = nps ! k" if "k < length nps" "k \<notin> fst ` set (x # xs)" for k
  proof -
    have "k < length ?nps" "k \<notin> fst ` set xs" "k \<noteq> i" using that by (auto simp: x)
    then have "nps' ! k = ?nps ! k" using IH by blast
    also have "\<dots> = nps ! k" using that(1) \<open>k \<noteq> i\<close> by (auto simp: nth_append)
    finally show ?thesis .
  qed
  have "length nps \<le> length ?nps" by simp
  then have "length nps \<le> length nps'" using IH by linarith
  then show ?case using IH head old by (auto simp: x)
qed

lemma collect_translated_ok:
  "j + length ms \<le> n \<Longrightarrow>
   collect_translated ms (map (\<lambda>k. Some (r k)) [0..<n]) j =
   Inr (zip ms (map (\<lambda>k. translatedText (r k)) [j..<j + length ms]))"
proof (induction ms arbitrary: j)
  case Nil
  then show ?case by simp
next
  case (Cons m ms)
  have "[j..<j + length (m # ms)] = j # [Suc j..<Suc j + length ms]"
    by (subst upt_rec) simp
  moreover have "collect_translated ms (map (\<lambda>k. Some (r k)) [0..<n]) (Suc j) =
      Inr (zip ms (map (\<lambda>k. translatedText (r k)) [Suc j..<Suc j + length ms]))"
    using Cons.prems by (intro Cons.IH) simp
  ultimately show ?case using Cons.prems by simp
qed

lemma find_modified_iff:
  "i \<in> set (find_modified cur saved) \<longleftrightarrow>
   i < length cur \<and> (length saved \<le> i \<or> cur ! i \<noteq> translatedContent (saved ! i))"
  by (auto simp: find_modified_def)

lemma find_modified_sorted: "sorted_wrt (<) (find_modified cur saved)"
  by (simp add: find_modified_def sorted_wrt_filter)


lemma with_hash_fun:
  "(\<lambda>p. p\<lparr>sourceHash := (if sourceHash p = [] then h (sourceContent p) else sourceHash p)\<rparr>) =
   with_hash h"
  by (rule ext) (simp add: with_hash_def)

text \<open>
  Claim C8, as amended. Position \<open>i\<close> of the edited translation is marked modified exactly
  when its paragraph differs from the \<open>translatedContent\<close> of the prior entry at \<open>i\<close> or
  there is no prior entry at \<open>i\<close>. When some position is modified and the modified
  paragraphs translate (no cancellation), \<^verbatim>\<open>reverseTranslate\<close> returns a mapping in which
  the entry of every modified index has the freshly translated text as source, the
  edited paragraph as translation and the hash of the new source; the entry of an
  untouched index is the prior one, except that an empty \<open>sourceHash\<close> is replaced by the
  hash of its source; and the new source is the join of the \<open>sourceContent\<close> fields, so
  untouched paragraphs are in it byte for byte.
\<close>

theorem reverse_rebuilds_modified:
  assumes cur: "cur = splitIntoParagraphs edited" and ms: "ms = find_modified cur saved"
    and ne: "ms \<noteq> []"
    and na: "\<forall>i. \<not> aborted_at_batch w i"
    and ok: "\<forall>k<length ms. unit_result w (map (\<lambda>i. cur ! i) ms) k = Inr (r k)"
  shows "\<exists>res calls. reverseTranslate calculateHash w mc edited saved = Some (Inr res, calls) \<and>
           modifiedIndices res = ms \<and>
           (\<forall>i. i \<in> set ms \<longleftrightarrow>
                i < length cur \<and> (length saved \<le> i \<or> cur ! i \<noteq> translatedContent (saved ! i))) \<and>
           (\<forall>k<length ms. newParagraphs res ! (ms ! k) =
              \<lparr>sourceContent = translatedText (r k), translatedContent = cur ! (ms ! k),
               sourceHash = calculateHash (translatedText (r k))\<rparr>) \<and>
           (\<forall>i<length saved. i \<notin> set ms \<longrightarrow>
              newParagraphs res ! i =
                (saved ! i)\<lparr>sourceHash :=
                   (if sourceHash (saved ! i) = [] then calculateHash (sourceContent (saved ! i))
                    else sourceHash (saved ! i))\<rparr>) \<and>
           newSourceContent res = join_with [nl, nl] (map sourceContent (newParagraphs res))"
proof -
  let ?ps = "map (\<lambda>i. cur ! i) ms"
  let ?cap = "case mc of None \<Rightarrow> 3 | Some c \<Rightarrow> if c = 0 then 3 else c"
  let ?ts = "map (\<lambda>k. translatedText (r k)) [0..<length ms]"
  let ?tps = "zip ms ?ts"
  let ?srcs = "map sourceContent saved"
  let ?nps = "map (with_hash calculateHash) saved"
  have cap: "0 < ?cap" by (simp split: option.splits)
  have tp: "translateParagraphs w ?ps ?cap =
      Some (Inr (map (\<lambda>k. Some (r k)) [0..<length ?ps]),
            concat (map (unit_calls w ?ps) [0..<length ?ps]))"
    using cap na ok by (intro translateParagraphs_ok) simp_all
  have ct: "collect_translated ms (map (\<lambda>k. Some (r k)) [0..<length ms]) 0 = Inr ?tps"
    using collect_translated_ok [of 0 ms "length ms" r] by simp
  obtain srcs' nps' where fold:
    "foldl (rebuild_step calculateHash cur) (?srcs, ?nps) ?tps = (srcs', nps')"
    by (cases "foldl (rebuild_step calculateHash cur) (?srcs, ?nps) ?tps")
  have res: "reverseTranslate calculateHash w mc edited saved =
      Some (Inr \<lparr>modifiedIndices = ms, translatedParagraphs = ?tps,
                 newSourceContent = joinParagraphs srcs', newParagraphs = nps'\<rparr>,
            concat (map (unit_calls w ?ps) [0..<length ?ps]))"
    using ne tp ct fold
    by (simp add: reverseTranslate_def Let_def cur [symmetric] ms [symmetric] with_hash_fun)
  have fsts: "map fst ?tps = ms" by simp
  have "fst ` set ?tps = set (map fst ?tps)" by (simp only: set_map)
  then have set_fst: "fst ` set ?tps = set ms" by (simp only: fsts)
  have mod_iff: "i \<in> set ms \<longleftrightarrow>
      i < length cur \<and> (length saved \<le> i \<or> cur ! i \<noteq> translatedContent (saved ! i))" for i
    unfolding ms by (rule find_modified_iff)
  have "sorted_wrt (<) ms" unfolding ms by (rule find_modified_sorted)
  then have sorted: "sorted_wrt (<) (map fst ?tps)" by (simp only: fsts)
  have contig: "\<forall>x\<in>set ?tps. \<forall>i'. length ?nps \<le> i' \<and> i' < fst x \<longrightarrow> i' \<in> fst ` set ?tps"
  proof (intro ballI allI impI)
    fix x i' assume x: "x \<in> set ?tps" and i': "length ?nps \<le> i' \<and> i' < fst x"
    have "fst x \<in> set ms" using x set_fst by auto
    then have "fst x < length cur" using mod_iff by blast
    then have "i' \<in> set ms" using i' mod_iff [of i'] by simp
    then show "i' \<in> fst ` set ?tps" using set_fst by simp
  qed
  have len: "length ?srcs = length ?nps" by simp
  note ent = rebuild_entries [OF len sorted contig fold]
  have modified: "nps' ! (ms ! k) =
      \<lparr>sourceContent = translatedText (r k), translatedContent = cur ! (ms ! k),
       sourceHash = calculateHash (translatedText (r k))\<rparr>" if "k < length ms" for k
  proof -
    have "?tps ! k = (ms ! k, translatedText (r k))" using that by simp
    moreover have "?tps ! k \<in> set ?tps" using that by (intro nth_mem) simp
    ultimately have "(ms ! k, translatedText (r k)) \<in> set ?tps" by simp
    then show ?thesis using ent by (auto simp: rebuilt_entry_def)
  qed
  have untouched: "nps' ! i = with_hash calculateHash (saved ! i)"
    if "i < length saved" "i \<notin> set ms" for i
    using ent that set_fst by auto
  have "?srcs = map sourceContent ?nps" by (simp add: with_hash_def)
  then have srcs: "srcs' = map sourceContent nps'" using fold by (rule rebuild_sources)
  show ?thesis
    using res mod_iff modified untouched srcs
    by (simp add: joinParagraphs_def with_hash_def)
qed

lemma split_a_X_c: "splitIntoParagraphs ''a\<newline>\<newline>X\<newline>\<newline>c'' = [''a'', ''X'', ''c'']"
  by (simp add: splitIntoParagraphs_def trim_def is_space_def nl_def)

lemma split_a_X: "splitIntoParagraphs ''a\<newline>\<newline>X'' = [''a'', ''X'']"
  by (simp add: splitIntoParagraphs_def trim_def is_space_def nl_def)

theorem reverse_rebuilds_modified_witness:
  "\<exists>res calls.
     reverseTranslate ex_hash ex_world None ''a\<newline>\<newline>X\<newline>\<newline>c''
       [\<lparr>sourceContent = ''A'', translatedContent = ''a'', sourceHash = ''#A''\<rparr>,
        \<lparr>sourceContent = ''B'', translatedContent = ''b'', sourceHash = ''#B''\<rparr>,
        \<lparr>sourceContent = ''C'', translatedContent = ''c'', sourceHash = ''#C''\<rparr>] =
     Some (Inr res, calls) \<and>
     modifiedIndices res = [1] \<and>
     newParagraphs res ! 1 =
       \<lparr>sourceContent = ''T:X'', translatedContent = ''X'', sourceHash = ''#T:X''\<rparr> \<and>
     newParagraphs res ! 0 = \<lparr>sourceContent = ''A'', translatedContent = ''a'', sourceHash = ''#A''\<rparr> \<and>
     newParagraphs res ! 2 = \<lparr>sourceContent = ''C'', translatedContent = ''c'', sourceHash = ''#C''\<rparr>"
proof -
  let ?saved = "[\<lparr>sourceContent = ''A'', translatedContent = ''a'', sourceHash = ''#A''\<rparr>,
        \<lparr>sourceContent = ''B'', translatedContent = ''b'', sourceHash = ''#B''\<rparr>,
        \<lparr>sourceContent = ''C'', translatedContent = ''c'', sourceHash = ''#C''\<rparr>]"
  let ?cur = "[''a'', ''X'', ''c'']"
  have h1: "?cur = splitIntoParagraphs ''a\<newline>\<newline>X\<newline>\<newline>c''" by (simp add: split_a_X_c)
  have h2: "[1] = find_modified ?cur ?saved" by (simp add: find_modified_def upt_rec)
  have h3: "[1::nat] \<noteq> []" by simp
  have h4: "\<forall>i. \<not> aborted_at_batch ex_world i" by (simp add: ex_world_def)
  have h5: "\<forall>k<length [1::nat]. unit_result ex_world (map (\<lambda>i. ?cur ! i) [1]) k =
      Inr (echo_result (map (\<lambda>i. ?cur ! i) [1] ! k))"
    by (simp add: ex_units')
  from reverse_rebuilds_modified [OF h1 h2 h3 h4 h5, of ex_hash None]
  obtain res calls where
    r: "reverseTranslate ex_hash ex_world None ''a\<newline>\<newline>X\<newline>\<newline>c'' ?saved = Some (Inr res, calls)"
      "modifiedIndices res = [1]"
      "\<forall>k<length [1::nat]. newParagraphs res ! ([1] ! k) =
         \<lparr>sourceContent = translatedText (echo_result (map (\<lambda>i. ?cur ! i) [1] ! k)),
          translatedContent = ?cur ! ([1] ! k),
          sourceHash = ex_hash (translatedText (echo_result (map (\<lambda>i. ?cur ! i) [1] ! k)))\<rparr>"
      "\<forall>i<length ?saved. i \<notin> set [1::nat] \<longrightarrow>
         newParagraphs res ! i =
           (?saved ! i)\<lparr>sourceHash :=
              (if sourceHash (?saved ! i) = [] then ex_hash (sourceContent (?saved ! i))
               else sourceHash (?saved ! i))\<rparr>"
    by blast
  have "newParagraphs res ! 1 =
      \<lparr>sourceContent = ''T:X'', translatedContent = ''X'', sourceHash = ''#T:X''\<rparr>"
    using r(3) by (simp add: echo_result_def ex_hash_def)
  moreover have "newParagraphs res ! 0 =
      \<lparr>sourceContent = ''A'', translatedContent = ''a'', sourceHash = ''#A''\<rparr>"
    using r(4) [rule_format, of 0] by simp
  moreover have "newParagraphs res ! 2 =
      \<lparr>sourceContent = ''C'', translatedContent = ''c'', sourceHash = ''#C''\<rparr>"
    using r(4) [rule_format, of 2] by simp
  ultimately show ?thesis using r(1,2) by blast
qed


text \<open>A prior mapping whose entries have no hash yet (the caller passes the empty string
  for a missing hash): paragraph 0 is untouched, and its entry comes back with a hash.\<close>

theorem reverse_untouched_entry_counterexample:
  "reverseTranslate ex_hash ex_world None ''a\<newline>\<newline>X''
     [\<lparr>sourceContent = ''A'', translatedContent = ''a'', sourceHash = []\<rparr>,
      \<lparr>sourceContent = ''B'', translatedContent = ''b'', sourceHash = []\<rparr>] =
   Some (Inr \<lparr>modifiedIndices = [1], translatedParagraphs = [(1, ''T:X'')],
              newSourceContent = ''A\<newline>\<newline>T:X'',
              newParagraphs =
                [\<lparr>sourceContent = ''A'', translatedContent = ''a'', sourceHash = ''#A''\<rparr>,
                 \<lparr>sourceContent = ''T:X'', translatedContent = ''X'', sourceHash = ''#T:X''\<rparr>]\<rparr>,
         [(0, ''X'')])"
proof -
  let ?saved = "[\<lparr>sourceContent = ''A'', translatedContent = ''a'', sourceHash = []\<rparr>,
      \<lparr>sourceContent = ''B'', translatedContent = ''b'', sourceHash = []\<rparr>]"
  have fm: "find_modified [''a'', ''X''] ?saved = [1]"
    by (simp add: find_modified_def upt_rec)
  have tp: "translateParagraphs ex_world [''X''] 3 =
      Some (Inr [Some (echo_result ''X'')], [(0, ''X'')])"
    by (simp add: ex_translateParagraphs)
  show ?thesis
    by (simp add: reverseTranslate_def Let_def split_a_X fm tp rebuild_step_def
        joinParagraphs_def echo_result_def ex_hash_def nl_def)
qed

section \<open>The dispatcher with a cap of 0\<close>

text \<open>With a cap of 0 the loop counter does not advance: unless the signal is set, the
  dispatcher never returns.\<close>

lemma batch_loop_zero_aux:
  assumes "batch_loop w ps c i results calls = Some y"
  shows "c = 0 \<longrightarrow> i < length ps \<longrightarrow> aborted_at_batch w i"
  using assms
proof (induct rule: batch_loop.raw_induct [rotated 1, consumes 1, case_names 1])
  case (1 loop w ps c i results calls y)
  show ?case
  proof (intro impI, rule ccontr)
    assume c: "c = 0" and i: "i < length ps" and na: "\<not> aborted_at_batch w i"
    have "Promise_all (settled_at w) i
            (map (\<lambda>bp. fst (batch_promise w i bp)) (enumerate 0 (take c (drop i ps)))) = Inr []"
      using c by (simp add: Promise_all_def)
    then have "loop w ps c (i + c) (store_results results []) 
        (calls @ concat (map (\<lambda>bp. snd (batch_promise w i bp)) (enumerate 0 (take c (drop i ps))))) = Some y"
      using "1.hyps"(2) i na by simp
    from "1.hyps"(1) [OF this] have "aborted_at_batch w (i + c)" using c i by simp
    then show False using c na by simp
  qed
qed

lemma dispatcher_hangs_at_zero_cap:
  "ps \<noteq> [] \<Longrightarrow> \<not> aborted_at_batch w 0 \<Longrightarrow> translateParagraphs w ps 0 = None"
  using batch_loop_zero_aux [of w ps 0 0 "replicate (length ps) None" "[]"]
  by (cases "translateParagraphs w ps 0") (auto simp: translateParagraphs_def)

end
